theory Spec2Isabelle
  imports Complex_Main "HOL-Library.Char_ord" "HOL-Library.List_Lexorder"
begin

section \<open>Strings and JavaScript values\<close>

text \<open>
  A JavaScript string is modelled as a HOL \<open>string\<close>, one \<open>char\<close> per UTF-16 code unit
  (the code units below 256, the Latin-1 range). \<open>String.prototype.toLowerCase\<close> maps,
  in that range, \<open>A\<close>..\<open>Z\<close> and the accented capitals 192..222 (without the
  multiplication sign 215) to the code unit 32 above, and nothing else.
\<close>

definition lower_char :: "char \<Rightarrow> char" where
  "lower_char c =
     (let n = (of_char c :: nat)
      in if (65 \<le> n \<and> n \<le> 90) \<or> (192 \<le> n \<and> n \<le> 222 \<and> n \<noteq> 215)
         then char_of (n + 32) else c)"

definition toLowerCase :: "string \<Rightarrow> string" where
  "toLowerCase s = map lower_char s"

text \<open>
  The values a JavaScript variable can hold, as far as \<open>typeof\<close> and truthiness tell them
  apart. \<open>Object\<close> stands for every object, array and function.
\<close>

datatype jsval = Undefined | Null | Boolean bool | Number real | String string | Object

text \<open>
  An optional string field of the JSON document: \<open>None\<close> is an absent (or \<open>null\<close>) field.
  In a condition, JavaScript takes the empty string for false as well.
\<close>

definition truthy :: "string option \<Rightarrow> bool" where
  "truthy v = (case v of None \<Rightarrow> False | Some s \<Rightarrow> s \<noteq> [])"

section \<open>sanitizeForCss\<close>

text \<open>
  The character class of the regular expression \<^verbatim>\<open>/[^a-zA-Z0-9-_]/g\<close>, read positively:
  the code units that \<open>replace\<close> leaves alone.
\<close>

definition css_safe :: "char \<Rightarrow> bool" where
  "css_safe c =
     (let n = (of_char c :: nat)
      in (97 \<le> n \<and> n \<le> 122) \<or> (65 \<le> n \<and> n \<le> 90) \<or> (48 \<le> n \<and> n \<le> 57)
         \<or> c = CHR ''-'' \<or> c = CHR ''_'')"

definition sanitizeForCss :: "jsval \<Rightarrow> string" where
  "sanitizeForCss className =
     (case className of
        String s \<Rightarrow>
          if s = [] then ''unknown''
          else toLowerCase (map (\<lambda>c. if css_safe c then c else CHR ''_'') s)
      | _ \<Rightarrow> ''unknown'')"

text \<open>The alphabet of the sanitizer's output: lowercase letters, digits, hyphen, underscore.\<close>

definition css_lower :: "char \<Rightarrow> bool" where
  "css_lower c =
     (let n = (of_char c :: nat)
      in (97 \<le> n \<and> n \<le> 122) \<or> (48 \<le> n \<and> n \<le> 57) \<or> c = CHR ''-'' \<or> c = CHR ''_'')"

section \<open>getDominantOrigin\<close>

text \<open>
  An \<open>origin_mix\<close> object is the list of its entries in the order \<open>for ... in\<close> enumerates
  them. A weight is the real number its double holds; the function only compares weights,
  and comparison of doubles is comparison of their values. The three local variables of the
  loop are the loop state.
\<close>

record dominant_state =
  dominantCountry :: string
  maxPercentage :: real
  hasKnownOrigin :: bool

text \<open>
  One pass through the body of the \<open>for ... in\<close> loop. \<open>String.prototype.localeCompare\<close>
  belongs to the host (its order depends on the locale's collation), so it is a parameter.
\<close>

definition dominant_step ::
  "(string \<Rightarrow> string \<Rightarrow> int) \<Rightarrow> string \<times> real \<Rightarrow> dominant_state \<Rightarrow> dominant_state" where
  "dominant_step localeCompare entry st =
     (let country = fst entry; percentage = snd entry; countryLower = toLowerCase country
      in if countryLower \<noteq> ''unknown'' \<and> percentage > maxPercentage st
         then st\<lparr>maxPercentage := percentage, dominantCountry := country,
                 hasKnownOrigin := True\<rparr>
         else if countryLower \<noteq> ''unknown'' \<and> percentage = maxPercentage st
         then (if localeCompare country (dominantCountry st) < 0
               then st\<lparr>dominantCountry := country\<rparr> else st)\<lparr>hasKnownOrigin := True\<rparr>
         else st)"

fun dominant_loop ::
  "(string \<Rightarrow> string \<Rightarrow> int) \<Rightarrow> (string \<times> real) list \<Rightarrow> dominant_state \<Rightarrow> dominant_state" where
  "dominant_loop localeCompare [] st = st"
| "dominant_loop localeCompare (entry # rest) st =
     dominant_loop localeCompare rest (dominant_step localeCompare entry st)"

text \<open>The expression \<^verbatim>\<open>fallbackCountry || 'unknown'\<close>.\<close>

definition or_unknown :: "string option \<Rightarrow> string" where
  "or_unknown fallbackCountry =
     (case fallbackCountry of None \<Rightarrow> ''unknown'' | Some f \<Rightarrow> if f = [] then ''unknown'' else f)"

definition getDominantOrigin ::
  "(string \<Rightarrow> string \<Rightarrow> int) \<Rightarrow> (string \<times> real) list option \<Rightarrow> string option \<Rightarrow> string" where
  "getDominantOrigin localeCompare originMix fallbackCountry =
     (case originMix of
        None \<Rightarrow> or_unknown fallbackCountry
      | Some mix \<Rightarrow>
          if mix = [] then or_unknown fallbackCountry
          else
            (let st = dominant_loop localeCompare mix
                        \<lparr>dominantCountry = ''unknown'', maxPercentage = 0, hasKnownOrigin = False\<rparr>
             in if \<not> hasKnownOrigin st
                   \<and> (case map_of mix ''Unknown'' of None \<Rightarrow> False | Some w \<Rightarrow> w \<ge> 0.5)
                then ''unknown''
                else if dominantCountry st = ''unknown'' \<and> truthy fallbackCountry
                then or_unknown fallbackCountry
                else dominantCountry st))"

text \<open>
  A comparison of the kind \<open>localeCompare\<close> provides, for running the function on concrete
  names: as the usual collations do on unaccented letters, it compares without regard to
  case first, and puts the lowercase spelling first among names that differ in case only.
\<close>

definition letterCompare :: "string \<Rightarrow> string \<Rightarrow> int" where
  "letterCompare a b =
     (if toLowerCase a < toLowerCase b then - 1
      else if toLowerCase b < toLowerCase a then 1
      else if b < a then - 1
      else if a < b then 1
      else 0)"

text \<open>The entries the loop considers: those whose name is not \<open>unknown\<close> in any casing.\<close>

definition known :: "string \<Rightarrow> bool" where
  "known country = (toLowerCase country \<noteq> ''unknown'')"

text \<open>What the tie-break needs of the comparison: "sorts before" is irreflexive and transitive.\<close>

definition strict_order :: "(string \<Rightarrow> string \<Rightarrow> int) \<Rightarrow> bool" where
  "strict_order cmp =
     ((\<forall>a. \<not> cmp a a < 0) \<and> (\<forall>a b c. cmp a b < 0 \<and> cmp b c < 0 \<longrightarrow> cmp a c < 0))"

section \<open>Person records and tree nodes\<close>

text \<open>
  A Person Record of the JSON document. Every field is optional; \<open>None\<close> is an absent
  field. A mapping from country to weight is the list of its entries in enumeration order.
  The record's \<open>id\<close> and \<open>children\<close> are \<open>data_id\<close> and \<open>data_children\<close> here, the names
  \<open>id\<close> and \<open>children\<close> being taken.
\<close>

record person_details =
  origin_breakdown :: "(string \<times> real) list option"
  year_info :: "string option"
  raw :: "string option"

datatype person =
  Person (data_id: "string option") (name: "string option")
    (data_children: "person list option") (countryOfOrigin: "string option")
    (origin_mix: "(string \<times> real) list option") (details: "person_details option")

text \<open>
  A node of the hierarchy: the fields the scripts read and write (\<open>data\<close>, \<open>id\<close>, \<open>x\<close>,
  \<open>y\<close>, \<open>x0\<close>, \<open>y0\<close>), the visible child list \<open>children\<close> and the hidden one,
  \<open>_children\<close> in the scripts. \<open>None\<close> stands for both \<open>undefined\<close> and \<open>null\<close>: the scripts and
  the library only ever test these fields for truthiness, and an array, even an empty one,
  is truthy. The tree is a tree of objects without sharing, so a mutation of a node is the
  tree with that node replaced.
\<close>

record attrs =
  data :: person
  node_id :: "string option"
  node_x :: "real option"
  node_y :: "real option"
  node_x0 :: "real option"
  node_y0 :: "real option"

datatype node = Node (attrs: attrs) (children: "node list option") (hidden: "node list option")

text \<open>
  \<open>d3.hierarchy(familyData, d => d.children)\<close>, the external hierarchy builder: one node per
  record, with a \<open>children\<close> array only where the record has a non-empty one.
\<close>

fun hierarchy :: "person \<Rightarrow> node" where
  "hierarchy (Person i n cs c m d) =
     Node \<lparr>data = Person i n cs c m d, node_id = None, node_x = None, node_y = None,
           node_x0 = None, node_y0 = None\<rparr>
       (case cs of
          None \<Rightarrow> None
        | Some [] \<Rightarrow> None
        | Some (k # ks) \<Rightarrow> Some (map hierarchy (k # ks)))
       None"

fun collapseRecursively :: "node \<Rightarrow> node" where
  "collapseRecursively (Node a cs hs) =
     (case cs of
        Some ds \<Rightarrow> Node a None (Some (map collapseRecursively ds))
      | None \<Rightarrow>
          (case hs of
             Some ds \<Rightarrow> Node a None (Some (map collapseRecursively ds))
           | None \<Rightarrow> Node a None None))"

text \<open>
  The initial collapse at load: the callback run on each child of the root, and the loop
  over the root's children.
\<close>

definition collapse_below :: "node \<Rightarrow> node" where
  "collapse_below parentOfMe =
     (case children parentOfMe of
        None \<Rightarrow> parentOfMe
      | Some gs \<Rightarrow>
          Node (attrs parentOfMe) (Some (map collapseRecursively gs)) (hidden parentOfMe))"

definition initial_collapse :: "node \<Rightarrow> node" where
  "initial_collapse rootNodeD3 =
     (case children rootNodeD3 of
        None \<Rightarrow> rootNodeD3
      | Some cs \<Rightarrow> Node (attrs rootNodeD3) (Some (map collapse_below cs)) (hidden rootNodeD3))"

fun toggleChildren :: "node \<Rightarrow> node" where
  "toggleChildren (Node a cs hs) =
     (case cs of Some ds \<Rightarrow> Node a None (Some ds) | None \<Rightarrow> Node a hs None)"

text \<open>
  The children the layout sees, and the children of a node whichever list holds them.
\<close>

definition visible :: "node \<Rightarrow> node list" where
  "visible d = (case children d of None \<Rightarrow> [] | Some cs \<Rightarrow> cs)"

definition kids :: "node \<Rightarrow> node list" where
  "kids d = (case children d of Some cs \<Rightarrow> cs
             | None \<Rightarrow> (case hidden d of Some hs \<Rightarrow> hs | None \<Rightarrow> []))"

text \<open>
  \<open>node.descendants()\<close> lists the visible nodes level by level, each level from the nodes of
  the level before, as the library's iterator does. Every node is listed with its path of
  child indices from the root; \<open>under\<close> gives the next level below one entry. The recursion
  ends because the total size of a level's subtrees shrinks from level to level.
\<close>

definition under :: "nat list \<times> node \<Rightarrow> (nat list \<times> node) list" where
  "under e = map (\<lambda>(i, c). (fst e @ [i], c)) (enumerate 0 (visible (snd e)))"

lemma size_visible: "sum_list (map size (visible d)) < size d"
proof (cases d)
  case (Node a cs hs)
  have le: "sum_list (map size ds) \<le> size_list size ds" for ds :: "node list"
    by (induction ds) simp_all
  show ?thesis
  proof (cases cs)
    case None
    with Node show ?thesis by (simp add: visible_def)
  next
    case (Some ds)
    with Node le [of ds] show ?thesis by (simp add: visible_def)
  qed
qed

lemma snd_under: "map snd (under e) = visible (snd e)"
  by (simp add: under_def case_prod_unfold comp_def)

lemma size_under: "sum_list (map (size \<circ> snd) (under e)) < size (snd e)"
proof -
  have "map (size \<circ> snd) (under e) = map size (map snd (under e))"
    by simp
  then show ?thesis
    using size_visible [of "snd e"] by (simp only: snd_under)
qed

lemma size_under_all:
  "es \<noteq> [] \<Longrightarrow>
     sum_list (map (size \<circ> snd) (concat (map under es))) < sum_list (map (size \<circ> snd) es)"
proof (induction es)
  case Nil
  then show ?case by simp
next
  case (Cons e es)
  have "sum_list (map (size \<circ> snd) (concat (map under es))) \<le> sum_list (map (size \<circ> snd) es)"
  proof (cases "es = []")
    case True
    then show ?thesis by simp
  next
    case False
    then show ?thesis by (rule less_imp_le [OF Cons.IH])
  qed
  moreover have "sum_list (map (size \<circ> snd) (under e)) < (size \<circ> snd) e"
    using size_under [of e] by simp
  ultimately show ?case
    by (simp del: comp_apply)
qed

function bfs :: "(nat list \<times> node) list \<Rightarrow> (nat list \<times> node) list" where
  "bfs [] = []"
| "bfs (e # es) = (e # es) @ bfs (concat (map under (e # es)))"
  by pat_completeness auto
termination
proof (relation "measure (\<lambda>es. sum_list (map (size \<circ> snd) es))")
  show "wf (measure (\<lambda>es. sum_list (map (size \<circ> snd) es)))"
    by simp
next
  fix e :: "nat list \<times> node" and es
  show "(concat (map under (e # es)), e # es)
          \<in> measure (\<lambda>es. sum_list (map (size \<circ> snd) es))"
    unfolding in_measure by (rule size_under_all) simp
qed

definition descendants :: "node \<Rightarrow> node list" where
  "descendants rootNode = map snd (bfs [([], rootNode)])"

section \<open>Numbers, bounds and layout\<close>

text \<open>
  A JavaScript number as the bounds computation meets it: a finite value, one of the
  infinities the extent variables start from, or \<open>NaN\<close>. Finite values are reals: the
  arithmetic of the sizing code is modelled without rounding.
\<close>

datatype jsnum = Num real | PosInf | NegInf | NaN

fun js_less :: "jsnum \<Rightarrow> jsnum \<Rightarrow> bool" where
  "js_less (Num a) (Num b) = (a < b)"
| "js_less (Num a) PosInf = True"
| "js_less NegInf (Num b) = True"
| "js_less NegInf PosInf = True"
| "js_less _ _ = False"

fun js_sub :: "jsnum \<Rightarrow> jsnum \<Rightarrow> jsnum" where
  "js_sub (Num a) (Num b) = Num (a - b)"
| "js_sub NaN _ = NaN"
| "js_sub _ NaN = NaN"
| "js_sub PosInf PosInf = NaN"
| "js_sub NegInf NegInf = NaN"
| "js_sub PosInf _ = PosInf"
| "js_sub NegInf _ = NegInf"
| "js_sub (Num a) PosInf = NegInf"
| "js_sub (Num a) NegInf = PosInf"

fun js_add :: "jsnum \<Rightarrow> real \<Rightarrow> jsnum" where
  "js_add (Num a) b = Num (a + b)"
| "js_add v b = v"

fun js_max :: "real \<Rightarrow> jsnum \<Rightarrow> jsnum" where
  "js_max a (Num b) = Num (max a b)"
| "js_max a PosInf = PosInf"
| "js_max a NegInf = Num a"
| "js_max a NaN = NaN"

text \<open>A coordinate read from a node: \<open>undefined\<close> compares as \<open>NaN\<close>.\<close>

definition coord :: "real option \<Rightarrow> jsnum" where
  "coord v = (case v of None \<Rightarrow> NaN | Some r \<Rightarrow> Num r)"

record bounds =
  minX_node :: jsnum
  maxX_node :: jsnum
  minY_node :: jsnum
  maxY_node :: jsnum

text \<open>The body of the \<open>nodes.forEach\<close> that computes the extent, and the loop with its
  empty-list reset.\<close>

definition bounds_step :: "node \<Rightarrow> bounds \<Rightarrow> bounds" where
  "bounds_step d b =
     (let dx = coord (node_x (attrs d)); dy = coord (node_y (attrs d));
          b1 = (if js_less dx (minX_node b) then b\<lparr>minX_node := dx\<rparr> else b);
          b2 = (if js_less (maxX_node b1) dx then b1\<lparr>maxX_node := dx\<rparr> else b1);
          b3 = (if js_less dy (minY_node b2) then b2\<lparr>minY_node := dy\<rparr> else b2)
      in if js_less (maxY_node b3) dy then b3\<lparr>maxY_node := dy\<rparr> else b3)"

definition node_bounds :: "node list \<Rightarrow> bounds" where
  "node_bounds nodes =
     (let b = fold bounds_step nodes
                \<lparr>minX_node = PosInf, maxX_node = NegInf, minY_node = PosInf, maxY_node = NegInf\<rparr>
      in if length nodes = 0
         then \<lparr>minX_node = Num 0, maxX_node = Num 0, minY_node = Num 0, maxY_node = Num 0\<rparr>
         else b)"

text \<open>
  The layout engine (\<open>d3.tree\<close>) is an external collaborator: it writes a position into
  every node it can reach through visible child lists and touches nothing else. Which
  position it computes is a parameter \<open>pos\<close>: for the tree it is given, a position for each
  path of child indices.
\<close>

lemma size_enumerate:
  fixes ds :: "node list"
  assumes "(i, c) \<in> set (enumerate n ds)"
  shows "size c < Suc (size_list size ds)"
proof -
  have "c \<in> set ds"
    using assms by (auto simp: in_set_enumerate_eq)
  then have "size c \<le> size_list size ds"
    by (rule size_list_estimation') simp
  then show ?thesis by simp
qed

function place :: "(nat list \<Rightarrow> real \<times> real) \<Rightarrow> nat list \<Rightarrow> node \<Rightarrow> node" where
  "place f p (Node a cs hs) =
     Node (a\<lparr>node_x := Some (fst (f p)), node_y := Some (snd (f p))\<rparr>)
       (case cs of
          None \<Rightarrow> None
        | Some ds \<Rightarrow> Some (map (\<lambda>(i, c). place f (p @ [i]) c) (enumerate 0 ds)))
       hs"
  by pat_completeness auto
termination
proof (relation "measure (\<lambda>(f, p, d). size d)")
  show "wf (measure (\<lambda>(f :: nat list \<Rightarrow> real \<times> real, p :: nat list, d :: node). size d))"
    by simp
next
  fix f :: "nat list \<Rightarrow> real \<times> real" and p :: "nat list" and a :: attrs
    and cs hs :: "node list option" and ds :: "node list" and e :: "nat \<times> node"
    and i :: nat and c :: node
  assume "cs = Some ds" "e \<in> set (enumerate 0 ds)" "(i, c) = e"
  then have "size c < Suc (size_list size ds)"
    using size_enumerate [of i c 0 ds] by simp
  then show "((f, p @ [i], c), (f, p, Node a cs hs)) \<in> measure (\<lambda>(f, p, d). size d)"
    using \<open>cs = Some ds\<close> by simp
qed

definition treeLayout :: "(node \<Rightarrow> nat list \<Rightarrow> real \<times> real) \<Rightarrow> node \<Rightarrow> node" where
  "treeLayout pos rootNode = place (pos rootNode) [] rootNode"

text \<open>
  A node object is addressed by its path of child indices from the root, through whichever
  of its parent's two lists currently holds it. \<open>update_at\<close> is a mutation of the node at a
  path; a path that leads nowhere changes nothing.
\<close>

fun node_at :: "nat list \<Rightarrow> node \<Rightarrow> node option" where
  "node_at [] d = Some d"
| "node_at (i # p) d = (if i < length (kids d) then node_at p (kids d ! i) else None)"

fun update_at :: "nat list \<Rightarrow> (node \<Rightarrow> node) \<Rightarrow> node \<Rightarrow> node" where
  "update_at [] f d = f d"
| "update_at (i # p) f (Node a cs hs) =
     (case cs of
        Some ds \<Rightarrow>
          if i < length ds then Node a (Some (ds[i := update_at p f (ds ! i)])) hs
          else Node a cs hs
      | None \<Rightarrow>
          (case hs of
             Some ds \<Rightarrow>
               if i < length ds then Node a None (Some (ds[i := update_at p f (ds ! i)]))
               else Node a cs hs
           | None \<Rightarrow> Node a cs hs))"

text \<open>Decimal digits of a number, for the template string \<^verbatim>\<open>`node-${++nodeIndex}`\<close>.\<close>

fun digits :: "nat \<Rightarrow> string" where
  "digits n =
     (if n < 10 then [char_of (48 + n)] else digits (n div 10) @ [char_of (48 + n mod 10)])"

text \<open>
  The key function of the node data join,
  \<^verbatim>\<open>d => d.id || (d.id = d.data.id || `node-${++nodeIndex}`)\<close>, as its effect on the node's
  fields and on the counter. The join calls it once for each laid-out node, in the order of
  \<open>descendants\<close>.
\<close>

definition key :: "attrs \<Rightarrow> nat \<Rightarrow> attrs \<times> nat" where
  "key a nodeIndex =
     (if truthy (node_id a) then (a, nodeIndex)
      else if truthy (data_id (data a)) then (a\<lparr>node_id := data_id (data a)\<rparr>, nodeIndex)
      else (a\<lparr>node_id := Some (''node-'' @ digits (nodeIndex + 1))\<rparr>, nodeIndex + 1))"

fun set_attrs :: "attrs \<Rightarrow> node \<Rightarrow> node" where
  "set_attrs a' (Node a cs hs) = Node a' cs hs"

definition key_at :: "nat list \<Rightarrow> node \<times> nat \<Rightarrow> node \<times> nat" where
  "key_at p s =
     (case node_at p (fst s) of
        None \<Rightarrow> s
      | Some d \<Rightarrow>
          (let (a', nodeIndex') = key (attrs d) (snd s)
           in (update_at p (set_attrs a') (fst s), nodeIndex')))"

definition join_keys :: "node \<times> nat \<Rightarrow> node \<times> nat" where
  "join_keys s = fold key_at (map fst (bfs [([], fst s)])) s"

text \<open>
  The closing \<open>nodes.forEach\<close> that copies every laid-out node's position into its
  previous-position fields. Each step touches one node only, so the order does not show.
\<close>

fun stash :: "node \<Rightarrow> node" where
  "stash (Node a cs hs) =
     Node (a\<lparr>node_x0 := node_x a, node_y0 := node_y a\<rparr>)
       (case cs of None \<Rightarrow> None | Some ds \<Rightarrow> Some (map stash ds))
       hs"

section \<open>The page: redraw, detail panel, load and events\<close>

text \<open>The constants of \<open>tree_logic.js\<close>.\<close>

definition margin_top :: real where "margin_top = 40"
definition margin_right :: real where "margin_right = 120"
definition margin_bottom :: real where "margin_bottom = 40"
definition margin_left :: real where "margin_left = 180"
definition initialHeight :: real where "initialHeight = 600"

definition calculatedInitialWidth :: "real \<Rightarrow> real" where
  "calculatedInitialWidth clientWidth = (if clientWidth > 600 then clientWidth else 600)"

text \<open>
  The \<open>transform\<close> attribute of the group that holds the drawing: a translation, or what the
  zoom behaviour last wrote (a translation and a scale).
\<close>

datatype transform = Translate jsnum jsnum | ZoomTransform real real real

record view =
  rootNodeD3 :: node
  nodeIndex :: nat
  svg_width :: jsnum
  svg_height :: jsnum
  g_transform :: transform

text \<open>
  \<open>updateTree\<close> of \<open>tree_logic.js\<close>. \<open>source\<close> is the path of the node the redraw is
  anchored at. The transitions of the rendered elements are not part of the state.
\<close>

fun map_attrs :: "(attrs \<Rightarrow> attrs) \<Rightarrow> node \<Rightarrow> node" where
  "map_attrs g (Node a cs hs) = Node (g a) cs hs"

definition source_defaults :: "attrs \<Rightarrow> attrs" where
  "source_defaults a =
     (let a1 = (if node_x0 a = None
                then a\<lparr>node_x0 := Some ((initialHeight - margin_top - margin_bottom) / 2)\<rparr>
                else a)
      in if node_y0 a1 = None then a1\<lparr>node_y0 := Some 0\<rparr> else a1)"

definition updateTree ::
  "(node \<Rightarrow> nat list \<Rightarrow> real \<times> real) \<Rightarrow> real \<Rightarrow> nat list \<Rightarrow> view \<Rightarrow> view" where
  "updateTree pos clientWidth source v =
     (let anchored = update_at source (map_attrs source_defaults) (rootNodeD3 v);
          treeDataLayout = treeLayout pos anchored;
          nodes = descendants treeDataLayout;
          b = node_bounds nodes;
          svgWidthRequired =
            js_add (js_add (js_add (js_sub (maxY_node b) (minY_node b)) margin_left)
              margin_right) 200;
          svgHeightRequired =
            js_add (js_add (js_add (js_sub (maxX_node b) (minX_node b)) margin_top)
              margin_bottom) 100;
          joined = join_keys (treeDataLayout, nodeIndex v)
      in v\<lparr>rootNodeD3 := stash (fst joined), nodeIndex := snd joined,
            svg_width := js_max (calculatedInitialWidth clientWidth) svgWidthRequired,
            svg_height := js_max initialHeight svgHeightRequired\<rparr>)"

text \<open>
  The second script of the repository (\<open>src/unnamed/part_000\<close>) has its own constants and
  its own \<open>updateTree\<close>, which also rewrites the group's translation.
\<close>

definition alt_margin_top :: real where "alt_margin_top = 50"
definition alt_margin_right :: real where "alt_margin_right = 150"
definition alt_margin_bottom :: real where "alt_margin_bottom = 50"
definition alt_margin_left :: real where "alt_margin_left = 200"
definition alt_initialHeight :: real where "alt_initialHeight = 700"

definition alt_calculatedInitialWidth :: "real \<Rightarrow> real" where
  "alt_calculatedInitialWidth clientWidth = (if clientWidth > 800 then clientWidth else 800)"

definition alt_source_defaults :: "attrs \<Rightarrow> attrs" where
  "alt_source_defaults a =
     (let a1 = (if node_x0 a = None
                then a\<lparr>node_x0 := (case node_x a of
                                      Some r \<Rightarrow> Some r
                                    | None \<Rightarrow> Some (alt_initialHeight / 2 - alt_margin_top))\<rparr>
                else a)
      in if node_y0 a1 = None
         then a1\<lparr>node_y0 := (case node_y a1 of Some r \<Rightarrow> Some r | None \<Rightarrow> Some 0)\<rparr>
         else a1)"

definition alt_updateTree ::
  "(node \<Rightarrow> nat list \<Rightarrow> real \<times> real) \<Rightarrow> real \<Rightarrow> nat list \<Rightarrow> view \<Rightarrow> view" where
  "alt_updateTree pos clientWidth source v =
     (let anchored = update_at source (map_attrs alt_source_defaults) (rootNodeD3 v);
          treeDataLayout = treeLayout pos anchored;
          nodes = descendants treeDataLayout;
          b = node_bounds nodes;
          contentWidth = js_sub (maxY_node b) (minY_node b);
          contentHeight = js_sub (maxX_node b) (minX_node b);
          requiredSvgWidth = js_add (js_add (js_add contentWidth alt_margin_left) alt_margin_right) 250;
          requiredSvgHeight = js_add (js_add (js_add contentHeight alt_margin_top) alt_margin_bottom) 60;
          joined = join_keys (treeDataLayout, nodeIndex v)
      in v\<lparr>rootNodeD3 := stash (fst joined), nodeIndex := snd joined,
            svg_width := js_max (alt_calculatedInitialWidth clientWidth) requiredSvgWidth,
            svg_height := js_max alt_initialHeight requiredSvgHeight,
            g_transform := Translate (js_sub (Num alt_margin_left) (minY_node b))
                             (js_sub (Num alt_margin_top) (minX_node b))\<rparr>)"

text \<open>
  The detail panel. The origin region holds the text \<open>N/A\<close> or a list with one item per
  entry; an item is kept as the pair behind it, not as its formatted text. \<open>threshold\<close> is
  the double that the literal \<open>0.001\<close> denotes.
\<close>

datatype origin_html = NA | Ul "(string \<times> real) list"

record panel =
  detailName :: string
  detailOrigin :: origin_html
  detailYearInfo :: string
  detailRawText :: string

definition or_na :: "string option \<Rightarrow> string" where
  "or_na v = (case v of None \<Rightarrow> ''N/A'' | Some s \<Rightarrow> if s = [] then ''N/A'' else s)"

definition threshold :: real where
  "threshold = 1152921504606847 / 2 ^ 60"

definition displayDetails :: "person \<Rightarrow> panel" where
  "displayDetails d =
     (let breakdown = (case details d of None \<Rightarrow> None | Some ds \<Rightarrow> origin_breakdown ds);
          breakdownHtml =
            (case breakdown of
               None \<Rightarrow> NA
             | Some entries \<Rightarrow>
                 if length entries > 0
                 then (let sortedBreakdown = sort_key (\<lambda>e. - snd e) entries
                       in Ul (filter (\<lambda>e. snd e > threshold) sortedBreakdown))
                 else NA);
          yearInfo = (case details d of None \<Rightarrow> None | Some ds \<Rightarrow> year_info ds);
          rawText = (case details d of None \<Rightarrow> None | Some ds \<Rightarrow> raw ds)
      in \<lparr>detailName = or_na (name d), detailOrigin = breakdownHtml,
          detailYearInfo = or_na yearInfo,
          detailRawText =
            (if truthy rawText then (case rawText of None \<Rightarrow> [] | Some r \<Rightarrow> r)
             else (case name d of None \<Rightarrow> [] | Some n \<Rightarrow> n))\<rparr>)"

text \<open>
  What the container shows: the paragraph \<open>displayError\<close> wrote in place of the drawing, or
  the drawing with the detail panel (\<open>None\<close> while the panel still has the page's own text).
  The fetch either rejects with a message or resolves with the parsed document (\<open>None\<close> for
  a falsy one such as \<open>null\<close>).
\<close>

datatype page =
  is_error: ErrorPage (error_text: string)
  | TreePage (page_view: view) (page_panel: "panel option")

datatype fetched = Rejected string | Resolved "person option"

definition displayError :: "string \<Rightarrow> page" where
  "displayError message = ErrorPage message"

definition load :: "(node \<Rightarrow> nat list \<Rightarrow> real \<times> real) \<Rightarrow> real \<Rightarrow> fetched \<Rightarrow> page" where
  "load pos clientWidth response =
     (case response of
        Rejected message \<Rightarrow> displayError (''Error loading data: '' @ message @ ''.'')
      | Resolved None \<Rightarrow> displayError ''Failed to load family tree data.''
      | Resolved (Some familyData) \<Rightarrow>
          if \<not> truthy (name familyData) \<and> \<not> truthy (data_id familyData)
          then displayError ''Failed to load family tree data.''
          else
            TreePage
              (updateTree pos clientWidth []
                 \<lparr>rootNodeD3 =
                    initial_collapse
                      (map_attrs
                         (\<lambda>a. a\<lparr>node_x0 := Some ((initialHeight - margin_top - margin_bottom) / 2),
                                 node_y0 := Some 0\<rparr>)
                         (hierarchy familyData)),
                  nodeIndex = 0,
                  svg_width = Num (calculatedInitialWidth clientWidth),
                  svg_height = Num initialHeight,
                  g_transform = Translate (Num margin_left) (Num margin_top)\<rparr>)
              None)"

text \<open>
  After load the page reacts to a click on a node (given by its path) and to the zoom
  behaviour writing a transform. Only rendered nodes can be clicked; the handler here
  accepts the path of any node of the tree.
\<close>

datatype event = Click "nat list" | Zoom real real real

definition handle ::
  "(node \<Rightarrow> nat list \<Rightarrow> real \<times> real) \<Rightarrow> real \<Rightarrow> event \<Rightarrow> page \<Rightarrow> page" where
  "handle pos clientWidth ev pg =
     (case pg of
        ErrorPage message \<Rightarrow> ErrorPage message
      | TreePage v details_panel \<Rightarrow>
          (case ev of
             Zoom zx zy zk \<Rightarrow> TreePage (v\<lparr>g_transform := ZoomTransform zx zy zk\<rparr>) details_panel
           | Click p \<Rightarrow>
               (case node_at p (rootNodeD3 v) of
                  None \<Rightarrow> pg
                | Some d \<Rightarrow>
                    TreePage
                      (updateTree pos clientWidth p
                         (v\<lparr>rootNodeD3 := update_at p toggleChildren (rootNodeD3 v)\<rparr>))
                      (Some (displayDetails (data (attrs d)))))))"

text \<open>The label and the class attribute an entering node is given.\<close>

definition node_label :: "node \<Rightarrow> string" where
  "node_label d = or_na (name (data (attrs d)))"

definition node_class :: "(string \<Rightarrow> string \<Rightarrow> int) \<Rightarrow> node \<Rightarrow> string" where
  "node_class localeCompare d =
     (let dominant = getDominantOrigin localeCompare (origin_mix (data (attrs d)))
                       (countryOfOrigin (data (attrs d)))
      in ''node country-'' @ sanitizeForCss (String dominant))"

section \<open>Invariants, sample data\<close>

text \<open>
  The data model's invariant on a node: its visible and its hidden child list are never both
  populated. \<open>well_formed\<close> asks it of every node of a tree, through both lists.
\<close>

definition exclusive :: "node \<Rightarrow> bool" where
  "exclusive d = (children d = None \<or> hidden d = None)"

fun well_formed :: "node \<Rightarrow> bool" where
  "well_formed (Node a cs hs) =
     ((cs = None \<or> hs = None)
      \<and> (case cs of None \<Rightarrow> True | Some ds \<Rightarrow> list_all well_formed ds)
      \<and> (case hs of None \<Rightarrow> True | Some ds \<Rightarrow> list_all well_formed ds))"

text \<open>
  A family of four generations for running the model, and the positions the layout engine
  (node size 40 by 250) gives its nodes: the root at the origin, its two children 20 above
  and below it one level to the right, and the single line of descendants below the first
  child level with that child.
\<close>

definition four_generations :: person where
  "four_generations =
     Person None (Some ''Me'')
       (Some [Person None (Some ''Dad'')
                (Some [Person (Some ''gp'') (Some ''Grandpa'')
                         (Some [Person None (Some ''Great-grandma'') None None None None])
                         None None None])
                None None None,
              Person None (Some ''Mum'') None None None None])
       None None None"

definition sample_layout :: "node \<Rightarrow> nat list \<Rightarrow> real \<times> real" where
  "sample_layout t p =
     (case p of [] \<Rightarrow> 0 | i # q \<Rightarrow> 40 * real i - 20, 250 * real (length p))"

text \<open>The state of the page after the initial collapse of the sample, before the first redraw.\<close>

definition sample_view :: view where
  "sample_view =
     \<lparr>rootNodeD3 = initial_collapse (hierarchy four_generations), nodeIndex = 0,
      svg_width = Num 1000, svg_height = Num 600,
      g_transform = Translate (Num 180) (Num 40)\<rparr>"

text \<open>
  A node is collapsed when it shows no children and everything stashed below it is collapsed
  as well. \<open>record_children\<close> is the child list of a record, empty when absent.
\<close>

fun collapsed :: "node \<Rightarrow> bool" where
  "collapsed (Node a cs hs) =
     (cs = None \<and> (case hs of None \<Rightarrow> True | Some ds \<Rightarrow> list_all collapsed ds))"

definition record_children :: "person \<Rightarrow> person list" where
  "record_children p = (case data_children p of None \<Rightarrow> [] | Some cs \<Rightarrow> cs)"

text \<open>
  The node reached from a node through hidden lists only, and the statement that a collapsed
  node keeps below it, in hidden lists, every node its original has below it, each with its
  fields.
\<close>

fun hidden_at :: "nat list \<Rightarrow> node \<Rightarrow> node option" where
  "hidden_at [] d = Some d"
| "hidden_at (i # q) d =
     (case hidden d of
        None \<Rightarrow> None
      | Some hs \<Rightarrow> if i < length hs then hidden_at q (hs ! i) else None)"

definition kept_below :: "node \<Rightarrow> node \<Rightarrow> bool" where
  "kept_below g' g = (\<forall>q. map_option attrs (hidden_at q g') = map_option attrs (node_at q g))"

text \<open>
  The items of the origin region, the two readings of "descending", and a record that has
  nothing but a name and a breakdown.
\<close>

definition items :: "origin_html \<Rightarrow> (string \<times> real) list" where
  "items h = (case h of NA \<Rightarrow> [] | Ul shown \<Rightarrow> shown)"

definition descending :: "(string \<times> real) list \<Rightarrow> bool" where
  "descending shown = sorted_wrt (\<lambda>a b. snd b \<le> snd a) shown"

definition strictly_descending :: "(string \<times> real) list \<Rightarrow> bool" where
  "strictly_descending shown = sorted_wrt (\<lambda>a b. snd b < snd a) shown"

definition with_breakdown :: "(string \<times> real) list \<Rightarrow> person" where
  "with_breakdown entries =
     Person None (Some ''Me'') None None None
       (Some \<lparr>origin_breakdown = Some entries, year_info = None, raw = None\<rparr>)"

section \<open>Notions for the bounds and the stashed positions\<close>

text \<open>
  The two updates the extent loop makes to a running minimum and a running maximum; a node
  that carries a position; a tree whose visible nodes all carry one; and the statement that
  four numbers are the extent of a list of nodes: every node lies within them and each of
  them is attained.
\<close>

definition lower :: "jsnum \<Rightarrow> jsnum \<Rightarrow> jsnum" where
  "lower v m = (if js_less v m then v else m)"

definition upper :: "jsnum \<Rightarrow> jsnum \<Rightarrow> jsnum" where
  "upper v m = (if js_less m v then v else m)"

definition placed :: "node \<Rightarrow> bool" where
  "placed d = (node_x (attrs d) \<noteq> None \<and> node_y (attrs d) \<noteq> None)"

fun all_placed :: "node \<Rightarrow> bool" where
  "all_placed (Node a cs hs) =
     (node_x a \<noteq> None \<and> node_y a \<noteq> None
      \<and> (case cs of None \<Rightarrow> True | Some ds \<Rightarrow> list_all all_placed ds))"

definition extent :: "node list \<Rightarrow> real \<Rightarrow> real \<Rightarrow> real \<Rightarrow> real \<Rightarrow> bool" where
  "extent nodes loX hiX loY hiY =
     ((\<forall>d \<in> set nodes. \<exists>vx vy. node_x (attrs d) = Some vx \<and> node_y (attrs d) = Some vy
           \<and> loX \<le> vx \<and> vx \<le> hiX \<and> loY \<le> vy \<and> vy \<le> hiY)
      \<and> (\<exists>d \<in> set nodes. node_x (attrs d) = Some loX)
      \<and> (\<exists>d \<in> set nodes. node_x (attrs d) = Some hiX)
      \<and> (\<exists>d \<in> set nodes. node_y (attrs d) = Some loY)
      \<and> (\<exists>d \<in> set nodes. node_y (attrs d) = Some hiY))"

definition position :: "node \<Rightarrow> real option \<times> real option" where
  "position d = (node_x (attrs d), node_y (attrs d))"

definition previous :: "node \<Rightarrow> real option \<times> real option" where
  "previous d = (node_x0 (attrs d), node_y0 (attrs d))"

fun all_stashed :: "node \<Rightarrow> bool" where
  "all_stashed (Node a cs hs) =
     (node_x0 a = node_x a \<and> node_y0 a = node_y a
      \<and> (case cs of None \<Rightarrow> True | Some ds \<Rightarrow> list_all all_stashed ds))"

text \<open>
  \<open>erase\<close> forgets what the data join and the stash write (identifier and previous
  position) in every node of a tree, so that two trees with the same image differ in nothing
  else.
\<close>

fun erase :: "node \<Rightarrow> node" where
  "erase (Node a cs hs) =
     Node (a\<lparr>node_id := None, node_x0 := None, node_y0 := None\<rparr>)
       (case cs of None \<Rightarrow> None | Some ds \<Rightarrow> Some (map erase ds))
       (case hs of None \<Rightarrow> None | Some ds \<Rightarrow> Some (map erase ds))"

section \<open>Notions for the stable identifiers\<close>

text \<open>
  The identifier field of the node at a path (\<open>None\<close> when the path leads nowhere), and the
  statement that every identifier assigned in one tree is still at its node in another.
\<close>

definition id_at :: "nat list \<Rightarrow> node \<Rightarrow> string option option" where
  "id_at q t = map_option (\<lambda>d. node_id (attrs d)) (node_at q t)"

definition keeps_ids :: "node \<Rightarrow> node \<Rightarrow> bool" where
  "keeps_ids t t' = (\<forall>q i. id_at q t = Some i \<and> truthy i \<longrightarrow> id_at q t' = Some i)"

text \<open>The page of the sample family right after load.\<close>

definition loaded_sample :: view where
  "loaded_sample = page_view (load sample_layout 1000 (Resolved (Some four_generations)))"

section \<open>Properties of sanitizeForCss\<close>

lemma of_char_plus32:
  assumes "(of_char c :: nat) \<le> 90"
  shows "(of_char (char_of (of_char c + 32 :: nat)) :: nat) = of_char c + 32"
  using assms by simp

lemma css_lower_lower_char:
  assumes "css_safe c"
  shows "css_lower (lower_char c)"
proof (cases "65 \<le> (of_char c :: nat) \<and> (of_char c :: nat) \<le> 90")
  case True
  then have "lower_char c = char_of ((of_char c :: nat) + 32)"
    by (simp add: lower_char_def)
  moreover have "(of_char (char_of ((of_char c :: nat) + 32)) :: nat) = of_char c + 32"
    using True by (simp add: of_char_plus32)
  ultimately show ?thesis
    using True by (simp add: css_lower_def)
next
  case False
  have "CHR ''-'' = c \<Longrightarrow> (of_char c :: nat) = 45" by auto
  moreover have "CHR ''_'' = c \<Longrightarrow> (of_char c :: nat) = 95" by auto
  ultimately have "lower_char c = c"
    using False assms unfolding lower_char_def css_safe_def Let_def by auto
  then show ?thesis
    using False assms by (auto simp: css_lower_def css_safe_def Let_def)
qed

lemma css_lower_underscore: "css_lower (lower_char CHR ''_'')"
  by (rule css_lower_lower_char) (simp add: css_safe_def)

text \<open>
  C10. For every input value the sanitizer returns a non-empty string over lowercase
  letters, digits, \<open>-\<close> and \<open>_\<close>: a value that is not a string, and the empty string, give
  the literal \<open>unknown\<close>; any other string is returned with each code unit outside
  \<open>[a-zA-Z0-9-_]\<close> replaced by \<open>_\<close>, and lowercased.
\<close>

theorem sanitizeForCss_total:
  "sanitizeForCss v \<noteq> []
   \<and> (\<forall>c \<in> set (sanitizeForCss v). css_lower c)
   \<and> ((\<forall>s. v = String s \<longrightarrow> s = []) \<longrightarrow> sanitizeForCss v = ''unknown'')
   \<and> (\<forall>s. v = String s \<and> s \<noteq> [] \<longrightarrow>
         sanitizeForCss v = map (\<lambda>c. lower_char (if css_safe c then c else CHR ''_'')) s)"
proof (cases v)
  case (String s)
  show ?thesis
  proof (cases "s = []")
    case True
    with String show ?thesis
      by (simp add: sanitizeForCss_def css_lower_def)
  next
    case False
    have "\<forall>c \<in> set s. css_lower (lower_char (if css_safe c then c else CHR ''_''))"
      by (simp add: css_lower_lower_char css_lower_underscore)
    with String False show ?thesis
      by (simp add: sanitizeForCss_def toLowerCase_def)
  qed
qed (simp_all add: sanitizeForCss_def css_lower_def)

theorem sanitizeForCss_total_witness:
  "sanitizeForCss (String ''N. Ireland'') = ''n__ireland''
   \<and> list_all css_lower ''n__ireland''
   \<and> sanitizeForCss Undefined = ''unknown''
   \<and> sanitizeForCss (String []) = ''unknown''"
proof -
  have a: "sanitizeForCss (String ''N. Ireland'') = ''n__ireland''"
    by code_simp
  have "\<forall>c \<in> set (sanitizeForCss (String ''N. Ireland'')). css_lower c"
    using sanitizeForCss_total [of "String ''N. Ireland''"] by blast
  then have b: "list_all css_lower ''n__ireland''"
    by (simp only: a list_all_iff)
  have c: "sanitizeForCss Undefined = ''unknown''"
    using sanitizeForCss_total [of Undefined] by simp
  have d: "sanitizeForCss (String []) = ''unknown''"
    using sanitizeForCss_total [of "String []"] by simp
  from a b c d show ?thesis by simp
qed

section \<open>Properties of getDominantOrigin\<close>

lemma lower_unknown: "toLowerCase ''unknown'' = ''unknown''"
  by code_simp

lemma step_unknown: "\<not> known (fst e) \<Longrightarrow> dominant_step cmp e st = st"
  by (simp add: dominant_step_def known_def Let_def)

lemma step_max_mono: "maxPercentage st \<le> maxPercentage (dominant_step cmp e st)"
  by (simp add: dominant_step_def Let_def)

lemma step_upper_bound: "known (fst e) \<Longrightarrow> snd e \<le> maxPercentage (dominant_step cmp e st)"
  by (simp add: dominant_step_def known_def Let_def)

lemma step_origin:
  "(dominantCountry (dominant_step cmp e st) = dominantCountry st
      \<and> maxPercentage (dominant_step cmp e st) = maxPercentage st)
   \<or> (dominantCountry (dominant_step cmp e st) = fst e
      \<and> maxPercentage (dominant_step cmp e st) = snd e \<and> known (fst e))"
  by (simp add: dominant_step_def known_def Let_def)

lemma step_known_mono: "hasKnownOrigin st \<Longrightarrow> hasKnownOrigin (dominant_step cmp e st)"
  by (simp add: dominant_step_def Let_def)

lemma step_known_change:
  "maxPercentage (dominant_step cmp e st) \<noteq> maxPercentage st
     \<Longrightarrow> hasKnownOrigin (dominant_step cmp e st)"
  by (simp add: dominant_step_def Let_def split: if_splits)

lemma step_same_max:
  "maxPercentage (dominant_step cmp e st) = maxPercentage st \<Longrightarrow>
     dominantCountry (dominant_step cmp e st) = dominantCountry st
     \<or> cmp (dominantCountry (dominant_step cmp e st)) (dominantCountry st) < 0"
  by (auto simp: dominant_step_def Let_def split: if_splits)

lemma step_minimal:
  "\<not> cmp (fst e) (fst e) < 0 \<Longrightarrow> snd e = maxPercentage (dominant_step cmp e st) \<Longrightarrow> known (fst e) \<Longrightarrow>
     \<not> cmp (fst e) (dominantCountry (dominant_step cmp e st)) < 0"
  by (simp add: dominant_step_def known_def Let_def split: if_splits)

lemma loop_unknown_only:
  "\<forall>e \<in> set xs. \<not> known (fst e) \<Longrightarrow> dominant_loop cmp xs st = st"
  by (induction xs arbitrary: st) (simp_all add: step_unknown)

lemma loop_max_mono: "maxPercentage st \<le> maxPercentage (dominant_loop cmp xs st)"
proof (induction xs arbitrary: st)
  case Nil
  show ?case by simp
next
  case (Cons e xs)
  show ?case
    using step_max_mono [of st cmp e] Cons.IH [of "dominant_step cmp e st"] by simp
qed

lemma loop_upper_bound:
  "e \<in> set xs \<Longrightarrow> known (fst e) \<Longrightarrow> snd e \<le> maxPercentage (dominant_loop cmp xs st)"
proof (induction xs arbitrary: st)
  case Nil
  then show ?case by simp
next
  case (Cons e' xs)
  show ?case
  proof (cases "e = e'")
    case True
    then show ?thesis
      using step_upper_bound [of e cmp st] loop_max_mono [of "dominant_step cmp e st" cmp xs]
        Cons.prems(2) by simp
  next
    case False
    then show ?thesis
      using Cons by simp
  qed
qed

lemma loop_origin:
  "(dominantCountry (dominant_loop cmp xs st) = dominantCountry st
      \<and> maxPercentage (dominant_loop cmp xs st) = maxPercentage st)
   \<or> ((dominantCountry (dominant_loop cmp xs st), maxPercentage (dominant_loop cmp xs st)) \<in> set xs
      \<and> known (dominantCountry (dominant_loop cmp xs st)))"
proof (induction xs arbitrary: st)
  case Nil
  show ?case by simp
next
  case (Cons e xs)
  from Cons.IH [of "dominant_step cmp e st"] step_origin [of cmp e st] show ?case
    by (cases e) auto
qed

lemma loop_known_mono:
  "hasKnownOrigin st \<Longrightarrow> hasKnownOrigin (dominant_loop cmp xs st)"
  by (induction xs arbitrary: st) (simp_all add: step_known_mono)

lemma loop_known_change:
  "maxPercentage (dominant_loop cmp xs st) \<noteq> maxPercentage st
     \<Longrightarrow> hasKnownOrigin (dominant_loop cmp xs st)"
proof (induction xs arbitrary: st)
  case Nil
  then show ?case by simp
next
  case (Cons e xs)
  show ?case
  proof (cases "maxPercentage (dominant_step cmp e st) = maxPercentage st")
    case True
    then show ?thesis using Cons.IH [of "dominant_step cmp e st"] Cons.prems by simp
  next
    case False
    then show ?thesis using step_known_change loop_known_mono by simp
  qed
qed

lemma loop_same_max:
  assumes "strict_order cmp"
  shows "maxPercentage (dominant_loop cmp xs st) = maxPercentage st \<Longrightarrow>
     dominantCountry (dominant_loop cmp xs st) = dominantCountry st
     \<or> cmp (dominantCountry (dominant_loop cmp xs st)) (dominantCountry st) < 0"
proof (induction xs arbitrary: st)
  case Nil
  then show ?case by simp
next
  case (Cons e xs)
  let ?st1 = "dominant_step cmp e st"
  have le1: "maxPercentage st \<le> maxPercentage ?st1" by (rule step_max_mono)
  have le2: "maxPercentage ?st1 \<le> maxPercentage (dominant_loop cmp xs ?st1)"
    by (rule loop_max_mono)
  have eq1: "maxPercentage ?st1 = maxPercentage st"
    using le1 le2 Cons.prems by simp
  then have eq2: "maxPercentage (dominant_loop cmp xs ?st1) = maxPercentage ?st1"
    using Cons.prems by simp
  from Cons.IH [OF eq2] step_same_max [OF eq1] assms show ?case
    unfolding strict_order_def dominant_loop.simps by metis
qed

lemma loop_minimal:
  assumes "strict_order cmp"
  shows "e \<in> set xs \<Longrightarrow> known (fst e) \<Longrightarrow> snd e = maxPercentage (dominant_loop cmp xs st) \<Longrightarrow>
     \<not> cmp (fst e) (dominantCountry (dominant_loop cmp xs st)) < 0"
proof (induction xs arbitrary: st)
  case Nil
  then show ?case by simp
next
  case (Cons e' xs)
  let ?st1 = "dominant_step cmp e' st"
  show ?case
  proof (cases "e \<in> set xs")
    case True
    then show ?thesis using Cons.IH [of ?st1] Cons.prems by simp
  next
    case False
    then have e: "e' = e" using Cons.prems(1) by simp
    have le1: "snd e \<le> maxPercentage ?st1"
      unfolding e using Cons.prems(2) by (rule step_upper_bound)
    have le2: "maxPercentage ?st1 \<le> maxPercentage (dominant_loop cmp xs ?st1)"
      by (rule loop_max_mono)
    have eq1: "snd e = maxPercentage ?st1" and eq2: "maxPercentage (dominant_loop cmp xs ?st1) = maxPercentage ?st1"
      using le1 le2 Cons.prems(3) by simp_all
    have irr: "\<not> cmp (fst e) (fst e) < 0" using assms by (simp add: strict_order_def)
    have a: "\<not> cmp (fst e) (dominantCountry ?st1) < 0"
      using step_minimal [of cmp e st] irr eq1 Cons.prems(2) unfolding e by simp
    from loop_same_max [OF assms eq2] a assms show ?thesis
      unfolding strict_order_def dominant_loop.simps by metis
  qed
qed


lemma letterCompare_less:
  "letterCompare a b < 0 \<longleftrightarrow>
     toLowerCase a < toLowerCase b \<or> (toLowerCase a = toLowerCase b \<and> b < a)"
  by (auto simp: letterCompare_def)

lemma strict_order_letterCompare: "strict_order letterCompare"
  unfolding strict_order_def letterCompare_less by auto

lemma getDominantOrigin_known:
  fixes cmp :: "string \<Rightarrow> string \<Rightarrow> int" and mix :: "(string \<times> real) list"
  assumes "e0 \<in> set mix" "known (fst e0)" "0 < snd e0"
  defines "st \<equiv> dominant_loop cmp mix
                 \<lparr>dominantCountry = ''unknown'', maxPercentage = 0, hasKnownOrigin = False\<rparr>"
  shows "getDominantOrigin cmp (Some mix) fallback = dominantCountry st"
    and "(dominantCountry st, maxPercentage st) \<in> set mix"
    and "known (dominantCountry st)"
proof -
  have "snd e0 \<le> maxPercentage st"
    unfolding st_def using assms(1,2) by (rule loop_upper_bound)
  then have pos: "0 < maxPercentage st" using assms(3) by simp
  then have ne: "maxPercentage st \<noteq> maxPercentage
       \<lparr>dominantCountry = ''unknown'', maxPercentage = 0, hasKnownOrigin = False\<rparr>"
    by simp
  from loop_origin [of cmp mix "\<lparr>dominantCountry = ''unknown'', maxPercentage = 0, hasKnownOrigin = False\<rparr>"]
  show mem: "(dominantCountry st, maxPercentage st) \<in> set mix"
    and kn: "known (dominantCountry st)"
    using pos unfolding st_def by auto
  have hk: "hasKnownOrigin st"
    using ne unfolding st_def by (rule loop_known_change)
  have "dominantCountry st \<noteq> ''unknown''"
    using kn lower_unknown by (auto simp: known_def)
  moreover have "mix \<noteq> []" using assms(1) by auto
  ultimately show "getDominantOrigin cmp (Some mix) fallback = dominantCountry st"
    using hk by (simp add: getDominantOrigin_def st_def [symmetric])
qed

text \<open>
  What the classification does outside the zero-weight case. Let the comparison be
  irreflexive and transitive. If some entry whose name is not \<open>unknown\<close> (in any casing) has
  a positive weight, the classification is the name of an entry of maximal weight among those
  entries, and no entry of the same weight sorts before it. If every entry is named
  \<open>unknown\<close> (in some casing): with an entry \<open>Unknown\<close> of weight at least 0.5 the
  classification is \<open>unknown\<close>, otherwise it is the fallback country when that is a non-empty
  string and \<open>unknown\<close> when not. An empty or absent mapping gives the fallback country when
  that is a non-empty string and \<open>unknown\<close> when not.
\<close>

theorem getDominantOrigin_classifies:
  "(strict_order cmp \<and> e0 \<in> set mix \<and> known (fst e0) \<and> 0 < snd e0 \<longrightarrow>
      (\<exists>w. (getDominantOrigin cmp (Some mix) fallback, w) \<in> set mix
           \<and> known (getDominantOrigin cmp (Some mix) fallback)
           \<and> (\<forall>e \<in> set mix. known (fst e) \<longrightarrow>
                  snd e \<le> w
                  \<and> (snd e = w \<longrightarrow>
                       \<not> cmp (fst e) (getDominantOrigin cmp (Some mix) fallback) < 0))))
   \<and> ((\<forall>e \<in> set mix. \<not> known (fst e)) \<and> map_of mix ''Unknown'' = Some u \<and> 0.5 \<le> u \<longrightarrow>
        getDominantOrigin cmp (Some mix) fallback = ''unknown'')
   \<and> ((\<forall>e \<in> set mix. \<not> known (fst e)) \<and> (\<forall>v. map_of mix ''Unknown'' = Some v \<longrightarrow> v < 0.5) \<longrightarrow>
        getDominantOrigin cmp (Some mix) fallback = or_unknown fallback)
   \<and> getDominantOrigin cmp (Some []) fallback = or_unknown fallback
   \<and> getDominantOrigin cmp None fallback = or_unknown fallback"
proof (intro conjI impI)
  assume a: "strict_order cmp \<and> e0 \<in> set mix \<and> known (fst e0) \<and> 0 < snd e0"
  let ?st = "dominant_loop cmp mix
                 \<lparr>dominantCountry = ''unknown'', maxPercentage = 0, hasKnownOrigin = False\<rparr>"
  have r: "getDominantOrigin cmp (Some mix) fallback = dominantCountry ?st"
    and mem: "(dominantCountry ?st, maxPercentage ?st) \<in> set mix"
    and kn: "known (dominantCountry ?st)"
    using getDominantOrigin_known [where ?e0.0=e0 and mix=mix and cmp=cmp] a by simp_all
  have "\<forall>e \<in> set mix. known (fst e) \<longrightarrow>
          snd e \<le> maxPercentage ?st
          \<and> (snd e = maxPercentage ?st \<longrightarrow> \<not> cmp (fst e) (dominantCountry ?st) < 0)"
    using a loop_upper_bound loop_minimal by blast
  with mem kn show "\<exists>w. (getDominantOrigin cmp (Some mix) fallback, w) \<in> set mix
           \<and> known (getDominantOrigin cmp (Some mix) fallback)
           \<and> (\<forall>e \<in> set mix. known (fst e) \<longrightarrow>
                  snd e \<le> w
                  \<and> (snd e = w \<longrightarrow>
                       \<not> cmp (fst e) (getDominantOrigin cmp (Some mix) fallback) < 0))"
    unfolding r by blast
next
  assume a: "(\<forall>e \<in> set mix. \<not> known (fst e)) \<and> map_of mix ''Unknown'' = Some u \<and> 0.5 \<le> u"
  then have "mix \<noteq> []" by auto
  then show "getDominantOrigin cmp (Some mix) fallback = ''unknown''"
    using a by (simp add: getDominantOrigin_def loop_unknown_only)
next
  assume a: "(\<forall>e \<in> set mix. \<not> known (fst e)) \<and> (\<forall>v. map_of mix ''Unknown'' = Some v \<longrightarrow> v < 0.5)"
  then show "getDominantOrigin cmp (Some mix) fallback = or_unknown fallback"
    by (auto simp: getDominantOrigin_def loop_unknown_only or_unknown_def truthy_def
          split: option.splits)
next
  show "getDominantOrigin cmp (Some []) fallback = or_unknown fallback"
    by (simp add: getDominantOrigin_def)
next
  show "getDominantOrigin cmp None fallback = or_unknown fallback"
    by (simp add: getDominantOrigin_def)
qed

lemma known_England: "known ''England''" "known ''Ireland''" "\<not> known ''Unknown''"
  by (simp_all add: known_def) code_simp+

theorem getDominantOrigin_classifies_witness:
  "getDominantOrigin letterCompare (Some [(''Ireland'', 0.5), (''England'', 0.5)]) None = ''England''
   \<and> getDominantOrigin letterCompare (Some [(''Unknown'', 1)]) (Some ''USA'') = ''unknown''
   \<and> getDominantOrigin letterCompare (Some [(''Unknown'', 0.2)]) (Some ''USA'') = ''USA''
   \<and> getDominantOrigin letterCompare (Some []) (Some ''Wales'') = ''Wales''
   \<and> getDominantOrigin letterCompare None None = ''unknown''"
proof -
  let ?mix = "[(''Ireland'', 0.5 :: real), (''England'', 0.5)]"
  let ?r = "getDominantOrigin letterCompare (Some ?mix) None"
  have h: "strict_order letterCompare \<and> (''England'', 0.5) \<in> set ?mix
           \<and> known (fst (''England'', 0.5 :: real)) \<and> 0 < snd (''England'', 0.5 :: real)"
    by (simp add: strict_order_letterCompare known_England)
  from getDominantOrigin_classifies [where cmp=letterCompare and ?e0.0="(''England'', 0.5)" and mix="?mix" and fallback=None] h
  obtain w where mem: "(?r, w) \<in> set ?mix"
    and least: "\<forall>e \<in> set ?mix. known (fst e) \<longrightarrow>
                  snd e \<le> w \<and> (snd e = w \<longrightarrow> \<not> letterCompare (fst e) ?r < 0)"
    by blast
  have lt: "letterCompare ''England'' ''Ireland'' < 0"
    by code_simp
  have w: "w = 0.5" using mem by auto
  have "\<not> letterCompare ''England'' ?r < 0"
    using least w known_England by simp
  then have "?r \<noteq> ''Ireland''" using lt by metis
  then have a: "?r = ''England''" using mem by auto
  have b: "getDominantOrigin letterCompare (Some [(''Unknown'', 1)]) (Some ''USA'') = ''unknown''"
    using getDominantOrigin_classifies [where cmp=letterCompare and mix="[(''Unknown'', 1)]" and fallback="Some ''USA''" and u=1]
      known_England by simp
  have c: "getDominantOrigin letterCompare (Some [(''Unknown'', 0.2)]) (Some ''USA'') = ''USA''"
    using getDominantOrigin_classifies [where cmp=letterCompare and mix="[(''Unknown'', 0.2)]" and fallback="Some ''USA''"]
      known_England by (simp add: or_unknown_def)
  have d: "getDominantOrigin letterCompare (Some []) (Some ''Wales'') = ''Wales''"
    using getDominantOrigin_classifies [where cmp=letterCompare and fallback="Some ''Wales''"]
    by (simp add: or_unknown_def)
  have e: "getDominantOrigin letterCompare None None = ''unknown''"
    using getDominantOrigin_classifies [where cmp=letterCompare and fallback=None]
    by (simp add: or_unknown_def)
  from a b c d e show ?thesis by blast
qed

text \<open>
  Where the only entry that is not \<open>unknown\<close> has weight 0, the loop's tie branch compares
  its name with the initial name \<open>unknown\<close> of the running maximum and marks an origin as
  known either way: the entry is the result if its name sorts before that word, and the
  fallback is the result if not.
\<close>

lemma zero_weight_single_entry:
  assumes "known c"
  shows "getDominantOrigin cmp (Some [(c, 0)]) fallback
           = (if cmp c ''unknown'' < 0 then c else or_unknown fallback)"
proof -
  have "c \<noteq> ''unknown''"
    using assms lower_unknown by (auto simp: known_def)
  then show ?thesis
    using assms
    by (simp add: getDominantOrigin_def dominant_step_def known_def Let_def or_unknown_def
          truthy_def split: option.splits)
qed

text \<open>
  C2. The classification is to be the entry of the highest weight among the entries whose
  name is not \<open>unknown\<close>. The code misses it where that highest weight is 0. With the
  entries \<open>Wales\<close> of weight 0 and \<open>Unknown\<close> of weight 1, \<open>Wales\<close> is that entry and the
  result is the fallback country, or \<open>unknown\<close> without one; with \<open>England\<close> in the place
  of \<open>Wales\<close> the result is \<open>England\<close>, as it should be.
\<close>

theorem getDominantOrigin_sentinel_tie:
  "getDominantOrigin letterCompare (Some [(''Wales'', 0), (''Unknown'', 1)]) (Some ''USA'') = ''USA''
   \<and> getDominantOrigin letterCompare (Some [(''Wales'', 0), (''Unknown'', 1)]) None = ''unknown''
   \<and> getDominantOrigin letterCompare (Some [(''England'', 0), (''Unknown'', 1)]) (Some ''USA'')
       = ''England''"
  by code_simp

section \<open>Toggling and the exclusiveness invariant\<close>

lemma toggle_twice: "exclusive d \<Longrightarrow> toggleChildren (toggleChildren d) = d"
  by (cases d) (auto simp: exclusive_def split: option.splits)

lemma kids_toggle: "kids (toggleChildren d) = kids d"
  by (cases d) (auto simp: kids_def split: option.splits)

lemma attrs_toggle: "attrs (toggleChildren d) = attrs d"
  by (cases d) (auto split: option.splits)

lemma update_at_twice:
  "update_at p f (update_at p f t) = update_at p (f \<circ> f) t"
proof (induction p arbitrary: t)
  case Nil
  show ?case by simp
next
  case (Cons i p)
  obtain a cs hs where t: "t = Node a cs hs" by (cases t)
  show ?case
    unfolding t using Cons.IH by (auto split: option.splits)
qed

lemma update_at_fixed:
  "node_at p t = Some d \<Longrightarrow> f d = d \<Longrightarrow> update_at p f t = t"
proof (induction p arbitrary: t)
  case Nil
  then show ?case by simp
next
  case (Cons i p)
  obtain a cs hs where t: "t = Node a cs hs" by (cases t)
  from Cons.prems(1) have i: "i < length (kids t)" and at: "node_at p (kids t ! i) = Some d"
    by (simp_all split: if_splits)
  have "update_at p f (kids t ! i) = kids t ! i"
    using Cons.IH [OF at Cons.prems(2)] .
  then show ?case
    using i unfolding t by (auto simp: kids_def split: option.splits)
qed

lemma wf_hierarchy: "well_formed (hierarchy p)"
proof (induction p rule: hierarchy.induct)
  case (1 i n cs c m d)
  show ?case
  proof (cases cs)
    case None
    then show ?thesis by simp
  next
    case (Some ks)
    then show ?thesis
      using 1 by (cases ks) (auto simp: list_all_iff)
  qed
qed

lemma wf_collapse: "well_formed (collapseRecursively d)"
proof (induction d rule: collapseRecursively.induct)
  case (1 a cs hs)
  then show ?case
    by (auto simp: list_all_iff split: option.splits)
qed

lemma wf_collapse_below: "well_formed c \<Longrightarrow> well_formed (collapse_below c)"
  by (cases c) (auto simp: collapse_below_def list_all_iff wf_collapse split: option.splits)

lemma wf_initial_collapse: "well_formed t \<Longrightarrow> well_formed (initial_collapse t)"
proof (cases t)
  case (Node a cs hs)
  assume wf: "well_formed t"
  show ?thesis
  proof (cases cs)
    case None
    then show ?thesis using wf Node by (simp add: initial_collapse_def)
  next
    case (Some ds)
    then show ?thesis
      using wf unfolding Node initial_collapse_def
      by (simp add: list_all_iff wf_collapse_below)
  qed
qed

lemma wf_toggle: "well_formed d \<Longrightarrow> well_formed (toggleChildren d)"
  by (cases d) (auto split: option.splits)

lemma wf_map_attrs: "well_formed (map_attrs g d) = well_formed d"
  by (cases d) simp

lemma wf_set_attrs: "well_formed (set_attrs a d) = well_formed d"
  by (cases d) simp

lemma list_all_update: "list_all P xs \<Longrightarrow> P y \<Longrightarrow> list_all P (xs[i := y])"
  unfolding list_all_iff using set_update_subset_insert [of xs i y] by auto

lemma wf_update_at:
  assumes "\<And>d. well_formed d \<Longrightarrow> well_formed (f d)"
  shows "well_formed t \<Longrightarrow> well_formed (update_at p f t)"
proof (induction p arbitrary: t)
  case Nil
  then show ?case using assms by simp
next
  case (Cons i p)
  obtain a cs hs where t: "t = Node a cs hs" by (cases t)
  have step: "list_all well_formed ds \<Longrightarrow> i < length ds \<Longrightarrow>
      list_all well_formed (ds[i := update_at p f (ds ! i)])" for ds
    by (rule list_all_update) (simp_all add: Cons.IH list_all_length)
  show ?case
    using Cons.prems step unfolding t by (auto split: option.splits)
qed

lemma wf_node_at: "node_at p t = Some d \<Longrightarrow> well_formed t \<Longrightarrow> well_formed d"
proof (induction p arbitrary: t)
  case Nil
  then show ?case by simp
next
  case (Cons i p)
  obtain a cs hs where t: "t = Node a cs hs" by (cases t)
  from Cons.prems(1) have i: "i < length (kids t)" and at: "node_at p (kids t ! i) = Some d"
    by (simp_all split: if_splits)
  have "well_formed (kids t ! i)"
    using Cons.prems(2) i unfolding t
    by (auto simp: kids_def list_all_length split: option.splits)
  then show ?case
    using Cons.IH [OF at] by simp
qed

lemma wf_exclusive: "well_formed d \<Longrightarrow> exclusive d"
  by (cases d) (auto simp: exclusive_def)

lemma wf_place: "well_formed (place f p d) = well_formed d"
proof (induction f p d rule: place.induct)
  case (1 f p a cs hs)
  show ?case
  proof (cases cs)
    case None
    then show ?thesis by simp
  next
    case (Some ds)
    have each: "well_formed (case e of (i, c) \<Rightarrow> place f (p @ [i]) c) = well_formed (snd e)"
      if "e \<in> set (enumerate 0 ds)" for e
    proof -
      obtain i c where e: "(i, c) = e" by (cases e) simp
      from 1 [OF Some that e] show ?thesis
        unfolding e [symmetric] by simp
    qed
    have "list_all well_formed (map (\<lambda>(i, c). place f (p @ [i]) c) (enumerate 0 ds))
        = list_all well_formed (map snd (enumerate 0 ds))"
      by (simp add: list_all_iff each del: map_snd_enumerate)
    then show ?thesis
      using Some by simp
  qed
qed

lemma wf_stash: "well_formed (stash d) = well_formed d"
proof (induction d rule: stash.induct)
  case (1 a cs hs)
  then show ?case
    by (cases cs) (auto simp: list_all_iff)
qed

lemma wf_key_at: "well_formed (fst s) \<Longrightarrow> well_formed (fst (key_at p s))"
  by (auto simp: key_at_def wf_update_at wf_set_attrs split: option.splits prod.splits)

lemma wf_fold_key_at: "well_formed (fst s) \<Longrightarrow> well_formed (fst (fold key_at ps s))"
  by (induction ps arbitrary: s) (simp_all add: wf_key_at)

lemma wf_join_keys: "well_formed (fst s) \<Longrightarrow> well_formed (fst (join_keys s))"
  unfolding join_keys_def by (rule wf_fold_key_at)

lemma wf_updateTree:
  assumes "well_formed (rootNodeD3 v)"
  shows "well_formed (rootNodeD3 (updateTree pos cw p v))"
proof -
  let ?anchored = "update_at p (map_attrs source_defaults) (rootNodeD3 v)"
  have "well_formed ?anchored"
    using assms by (rule wf_update_at [rotated]) (simp add: wf_map_attrs)
  then have "well_formed (fst (treeLayout pos ?anchored, nodeIndex v))"
    by (simp add: treeLayout_def wf_place)
  then have "well_formed (fst (join_keys (treeLayout pos ?anchored, nodeIndex v)))"
    by (rule wf_join_keys)
  then show ?thesis
    by (simp add: updateTree_def Let_def wf_stash)
qed

lemma wf_load:
  assumes "load pos cw r = TreePage v pn"
  shows "well_formed (rootNodeD3 v)"
proof -
  from assms obtain fd v0 where v: "v = updateTree pos cw [] v0"
    and v0: "rootNodeD3 v0 = initial_collapse
                      (map_attrs
                         (\<lambda>a. a\<lparr>node_x0 := Some ((initialHeight - margin_top - margin_bottom) / 2),
                                 node_y0 := Some 0\<rparr>)
                         (hierarchy fd))"
    by (auto simp: load_def displayError_def split: fetched.splits option.splits if_splits)
  have "well_formed (rootNodeD3 v0)"
    unfolding v0 by (intro wf_initial_collapse) (simp add: wf_map_attrs wf_hierarchy)
  then show ?thesis
    unfolding v by (rule wf_updateTree)
qed

lemma wf_handle:
  assumes "handle pos cw ev (TreePage v pn) = TreePage v' pn'" "well_formed (rootNodeD3 v)"
  shows "well_formed (rootNodeD3 v')"
proof (cases ev)
  case (Zoom zx zy zk)
  then show ?thesis using assms by (auto simp: handle_def)
next
  case (Click p)
  have t: "well_formed (update_at p toggleChildren (rootNodeD3 v))"
    using assms(2) by (rule wf_update_at [rotated]) (rule wf_toggle)
  show ?thesis
  proof (cases "node_at p (rootNodeD3 v)")
    case None
    then show ?thesis using assms Click by (simp add: handle_def)
  next
    case (Some d)
    then have "v' = updateTree pos cw p (v\<lparr>rootNodeD3 := update_at p toggleChildren (rootNodeD3 v)\<rparr>)"
      using assms(1) Click by (simp add: handle_def)
    then show ?thesis
      using t by (simp add: wf_updateTree)
  qed
qed

lemma handle_error: "handle pos cw ev (ErrorPage m) = ErrorPage m"
  by (simp add: handle_def)

lemma fold_handle_error: "fold (handle pos cw) evs (ErrorPage m) = ErrorPage m"
  by (induction evs) (simp_all add: handle_error)

lemma wf_fold_handle:
  "fold (handle pos cw) evs (TreePage v pn) = TreePage v' pn' \<Longrightarrow> well_formed (rootNodeD3 v)
     \<Longrightarrow> well_formed (rootNodeD3 v')"
proof (induction evs arbitrary: v pn)
  case Nil
  then show ?case by simp
next
  case (Cons ev evs)
  show ?case
  proof (cases "handle pos cw ev (TreePage v pn)")
    case (ErrorPage m)
    then show ?thesis using Cons.prems(1) by (simp add: fold_handle_error)
  next
    case (TreePage v1 pn1)
    then show ?thesis
      using Cons.IH [of v1 pn1] Cons.prems wf_handle [OF TreePage] by simp
  qed
qed

lemma wf_reachable:
  "fold (handle pos cw) evs (load pos cw r) = TreePage v pn \<Longrightarrow> well_formed (rootNodeD3 v)"
proof (cases "load pos cw r")
  case (ErrorPage m)
  assume "fold (handle pos cw) evs (load pos cw r) = TreePage v pn"
  then show ?thesis using ErrorPage by (simp add: fold_handle_error)
next
  case (TreePage v0 pn0)
  assume "fold (handle pos cw) evs (load pos cw r) = TreePage v pn"
  then show ?thesis
    using TreePage wf_load [OF TreePage] wf_fold_handle by simp
qed

lemma page_is_tree: "\<not> is_error pg \<Longrightarrow> pg = TreePage (page_view pg) (page_panel pg)"
  by (cases pg) simp_all

text \<open>
  C3. Toggling a node twice restores it: its visible and hidden child lists are as before,
  and nothing below it or elsewhere in the tree has changed. This holds of every node whose
  two lists are not both populated, which is every node of every tree the page can reach from
  load by clicks and zooms. A single toggle keeps the node's fields and its children as they
  are, whichever list holds them.
\<close>

theorem toggleChildren_involution:
  "(exclusive d \<longrightarrow> toggleChildren (toggleChildren d) = d)
   \<and> (fold (handle pos cw) evs (load pos cw r) = TreePage v pn
        \<and> node_at p (rootNodeD3 v) = Some n \<longrightarrow>
        toggleChildren (toggleChildren n) = n
        \<and> update_at p toggleChildren (update_at p toggleChildren (rootNodeD3 v)) = rootNodeD3 v)
   \<and> kids (toggleChildren d) = kids d
   \<and> attrs (toggleChildren d) = attrs d"
proof (intro conjI impI)
  assume "exclusive d"
  then show "toggleChildren (toggleChildren d) = d" by (rule toggle_twice)
next
  assume a: "fold (handle pos cw) evs (load pos cw r) = TreePage v pn
        \<and> node_at p (rootNodeD3 v) = Some n"
  then have "well_formed (rootNodeD3 v)" by (blast intro: wf_reachable)
  then have "exclusive n" using a by (blast intro: wf_node_at wf_exclusive)
  then show tt: "toggleChildren (toggleChildren n) = n" by (rule toggle_twice)
  then have "update_at p (toggleChildren \<circ> toggleChildren) (rootNodeD3 v) = rootNodeD3 v"
    using a by (intro update_at_fixed [of p _ n]) simp_all
  then show "update_at p toggleChildren (update_at p toggleChildren (rootNodeD3 v)) = rootNodeD3 v"
    by (simp add: update_at_twice)
next
  show "kids (toggleChildren d) = kids d" by (rule kids_toggle)
next
  show "attrs (toggleChildren d) = attrs d" by (rule attrs_toggle)
qed

theorem toggleChildren_involution_witness:
  "toggleChildren (toggleChildren (hierarchy four_generations)) = hierarchy four_generations
   \<and> \<not> is_error (fold (handle sample_layout 1000) [Click [0, 0]]
                     (load sample_layout 1000 (Resolved (Some four_generations))))
   \<and> node_at [0]
        (rootNodeD3 (page_view (fold (handle sample_layout 1000) [Click [0, 0]]
                                  (load sample_layout 1000 (Resolved (Some four_generations)))))) \<noteq> None
   \<and> update_at [0] toggleChildren
        (update_at [0] toggleChildren
           (rootNodeD3 (page_view (fold (handle sample_layout 1000) [Click [0, 0]]
                                     (load sample_layout 1000 (Resolved (Some four_generations)))))))
       = rootNodeD3 (page_view (fold (handle sample_layout 1000) [Click [0, 0]]
                                  (load sample_layout 1000 (Resolved (Some four_generations)))))"
proof -
  let ?pg = "fold (handle sample_layout 1000) [Click [0, 0]]
               (load sample_layout 1000 (Resolved (Some four_generations)))"
  have ex: "exclusive (hierarchy four_generations)"
    by code_simp
  have a: "toggleChildren (toggleChildren (hierarchy four_generations))
             = hierarchy four_generations"
    using toggleChildren_involution [of "hierarchy four_generations"] ex by blast
  have b: "\<not> is_error ?pg"
    by code_simp
  then have pg: "?pg = TreePage (page_view ?pg) (page_panel ?pg)"
    by (rule page_is_tree)
  have c: "node_at [0] (rootNodeD3 (page_view ?pg)) \<noteq> None"
    by code_simp
  then obtain n where n: "node_at [0] (rootNodeD3 (page_view ?pg)) = Some n"
    by blast
  have d: "update_at [0] toggleChildren (update_at [0] toggleChildren (rootNodeD3 (page_view ?pg)))
             = rootNodeD3 (page_view ?pg)"
    using toggleChildren_involution [of _ sample_layout 1000 "[Click [0, 0]]"
        "Resolved (Some four_generations)" "page_view ?pg" "page_panel ?pg" "[0]" n] pg n
    by blast
  from a b c d show ?thesis by blast
qed

section \<open>The initial collapse\<close>

lemma bfs_unfold: "bfs es = es @ bfs (concat (map under es))"
  by (cases es) simp_all

lemma snd_concat_under: "map snd (concat (map under es)) = concat (map visible (map snd es))"
  by (induction es) (simp_all add: snd_under)

lemma bfs_leaves: "\<forall>e \<in> set es. visible (snd e) = [] \<Longrightarrow> bfs es = es"
proof -
  assume a: "\<forall>e \<in> set es. visible (snd e) = []"
  have "concat (map under es) = []"
    using a by (auto simp: under_def)
  with bfs_unfold [of es] have "bfs es = es @ bfs []"
    by (simp only:)
  then show ?thesis by simp
qed

lemma descendants_three_levels:
  assumes "\<forall>g \<in> set (concat (map visible (visible t))). visible g = []"
  shows "descendants t = t # visible t @ concat (map visible (visible t))"
proof -
  let ?l1 = "under ([], t)"
  let ?l2 = "concat (map under ?l1)"
  have s1: "map snd ?l1 = visible t"
    by (simp add: snd_under)
  have s2: "map snd ?l2 = concat (map visible (visible t))"
    by (simp only: snd_concat_under s1)
  have "\<forall>e \<in> set ?l2. visible (snd e) = []"
  proof
    fix e assume "e \<in> set ?l2"
    then have "snd e \<in> set (map snd ?l2)" by (simp del: map_snd_enumerate)
    then show "visible (snd e) = []" using assms unfolding s2 by blast
  qed
  then have l2: "bfs ?l2 = ?l2" by (rule bfs_leaves)
  have "bfs [([], t)] = [([], t)] @ bfs ?l1"
    by simp
  also have "bfs ?l1 = ?l1 @ bfs ?l2"
    by (rule bfs_unfold)
  finally have "bfs [([], t)] = [([], t)] @ ?l1 @ ?l2"
    using l2 by simp
  then have "descendants t = map snd ([([], t)] @ ?l1 @ ?l2)"
    by (simp only: descendants_def)
  then show ?thesis
    using s1 s2 by (simp only: map_append) simp
qed

lemma collapsed_collapse: "collapsed (collapseRecursively d)"
proof (induction d rule: collapseRecursively.induct)
  case (1 a cs hs)
  then show ?case
    by (auto simp: list_all_iff split: option.splits)
qed

lemma collapsed_visible: "collapsed d \<Longrightarrow> visible d = []"
  by (cases d) (simp add: visible_def)

lemma visible_hierarchy: "visible (hierarchy p) = map hierarchy (record_children p)"
proof (cases p)
  case (Person i n cs c m d)
  show ?thesis
  proof (cases cs)
    case None
    then show ?thesis using Person by (simp add: visible_def record_children_def)
  next
    case (Some ks)
    then show ?thesis using Person by (cases ks) (simp_all add: visible_def record_children_def)
  qed
qed

lemma visible_map_attrs: "visible (map_attrs g d) = visible d"
  by (cases d) (simp add: visible_def)

lemma visible_collapse_below: "visible (collapse_below c) = map collapseRecursively (visible c)"
  by (cases c) (auto simp: collapse_below_def visible_def split: option.splits)

lemma visible_initial_collapse: "visible (initial_collapse t) = map collapse_below (visible t)"
  by (cases t) (auto simp: initial_collapse_def visible_def split: option.splits)

lemma grandchildren_initial_collapse:
  "concat (map visible (visible (initial_collapse t)))
     = map collapseRecursively (concat (map visible (visible t)))"
  by (simp add: visible_initial_collapse comp_def visible_collapse_below map_concat)

lemma length_grandchildren:
  "length (concat (map visible (map hierarchy rc)))
     = sum_list (map (\<lambda>c. length (record_children c)) rc)"
  by (induction rc) (simp_all add: visible_hierarchy)

lemma hidden_hierarchy: "hidden (hierarchy p) = None"
  by (cases p) simp

lemma hidden_map_attrs: "hidden (map_attrs g d) = hidden d"
  by (cases d) simp

lemma hidden_initial_collapse: "hidden (initial_collapse t) = hidden t"
  by (cases t) (simp add: initial_collapse_def split: option.splits)

lemma hidden_collapse_below: "hidden (collapse_below c) = hidden c"
  by (cases c) (simp add: collapse_below_def split: option.splits)

lemma attrs_collapse: "attrs (collapseRecursively d) = attrs d"
  by (cases d) (simp split: option.splits)

lemma kids_collapse: "kids (collapseRecursively d) = map collapseRecursively (kids d)"
  by (cases d) (simp add: kids_def split: option.splits)

lemma hidden_collapse:
  "hidden (collapseRecursively d)
     = (if children d = None \<and> hidden d = None then None
        else Some (map collapseRecursively (kids d)))"
  by (cases d) (simp add: kids_def split: option.splits)

lemma kids_empty: "children d = None \<and> hidden d = None \<Longrightarrow> kids d = []"
  by (simp add: kids_def)

lemma node_at_collapse:
  "map_option attrs (node_at q (collapseRecursively d)) = map_option attrs (node_at q d)"
proof (induction q arbitrary: d)
  case Nil
  show ?case by (simp add: attrs_collapse)
next
  case (Cons i q)
  show ?case
    using Cons.IH [of "kids d ! i"] by (simp add: kids_collapse)
qed

lemma hidden_at_collapse:
  "map_option attrs (hidden_at q (collapseRecursively d)) = map_option attrs (node_at q d)"
proof (induction q arbitrary: d)
  case Nil
  show ?case by (simp add: attrs_collapse)
next
  case (Cons i q)
  show ?case
  proof (cases "children d = None \<and> hidden d = None")
    case True
    then show ?thesis by (simp add: hidden_collapse kids_empty)
  next
    case False
    then have "hidden (collapseRecursively d) = Some (map collapseRecursively (kids d))"
      by (simp only: hidden_collapse if_False)
    then show ?thesis
      using Cons.IH [of "kids d ! i"] by simp
  qed
qed

lemma kept_below_collapse: "kept_below (collapseRecursively g) g"
  by (simp add: kept_below_def hidden_at_collapse)

lemma attrs_collapse_below: "attrs (collapse_below c) = attrs c"
  by (cases c) (simp add: collapse_below_def split: option.splits)

lemma kids_collapse_below:
  "kids (collapse_below c)
     = (if children c = None then kids c else map collapseRecursively (kids c))"
  by (cases c) (simp add: collapse_below_def kids_def split: option.splits)

lemma node_at_collapse_below:
  "map_option attrs (node_at q (collapse_below c)) = map_option attrs (node_at q c)"
proof (cases q)
  case Nil
  then show ?thesis by (simp add: attrs_collapse_below)
next
  case (Cons i q')
  then show ?thesis
    using node_at_collapse [of q' "kids c ! i"] by (simp add: kids_collapse_below)
qed

lemma attrs_initial_collapse: "attrs (initial_collapse t) = attrs t"
  by (cases t) (simp add: initial_collapse_def split: option.splits)

lemma kids_initial_collapse:
  "kids (initial_collapse t) = (if children t = None then kids t else map collapse_below (kids t))"
  by (cases t) (simp add: initial_collapse_def kids_def split: option.splits)

lemma node_at_initial_collapse:
  "map_option attrs (node_at q (initial_collapse t)) = map_option attrs (node_at q t)"
proof (cases q)
  case Nil
  then show ?thesis by (simp add: attrs_initial_collapse)
next
  case (Cons i q')
  then show ?thesis
    using node_at_collapse_below [of q' "kids t ! i"] by (simp add: kids_initial_collapse)
qed

lemma kept_below_grandchildren:
  "list_all2 kept_below (map collapseRecursively gs) gs"
  by (simp add: list_all2_map1 list.rel_refl kept_below_collapse)

text \<open>
  C1 (amended). After the initial collapse the visible nodes are the root, its children and
  its grandchildren, in this order: their number is 1 plus the number of the root record's
  children plus the number of those children's children. Every grandchild is collapsed, and
  it keeps below it, in hidden lists, every node it had below it: everything deeper than a
  grandchild is reachable through hidden lists, and through them only. No node of the tree
  is lost or changed: every path leads to a node with the same fields as before. The root
  and its children have no hidden list.
\<close>

theorem initial_collapse_shows_three_levels:
  "descendants (initial_collapse (map_attrs g (hierarchy p)))
     = initial_collapse (map_attrs g (hierarchy p))
       # visible (initial_collapse (map_attrs g (hierarchy p)))
       @ concat (map visible (visible (initial_collapse (map_attrs g (hierarchy p)))))
   \<and> length (descendants (initial_collapse (map_attrs g (hierarchy p))))
       = 1 + length (record_children p)
         + sum_list (map (\<lambda>c. length (record_children c)) (record_children p))
   \<and> list_all collapsed
        (concat (map visible (visible (initial_collapse (map_attrs g (hierarchy p))))))
   \<and> list_all2 kept_below
        (concat (map visible (visible (initial_collapse (map_attrs g (hierarchy p))))))
        (concat (map visible (visible (map_attrs g (hierarchy p)))))
   \<and> (\<forall>q. map_option attrs (node_at q (initial_collapse (map_attrs g (hierarchy p))))
             = map_option attrs (node_at q (map_attrs g (hierarchy p))))
   \<and> hidden (initial_collapse (map_attrs g (hierarchy p))) = None
   \<and> list_all (\<lambda>c. hidden c = None) (visible (initial_collapse (map_attrs g (hierarchy p))))"
proof -
  let ?base = "map_attrs g (hierarchy p)"
  let ?t = "initial_collapse ?base"
  have gc: "concat (map visible (visible ?t))
     = map collapseRecursively (concat (map visible (visible ?base)))"
    by (rule grandchildren_initial_collapse)
  have coll: "list_all collapsed (concat (map visible (visible ?t)))"
    by (simp only: gc list_all_iff) (simp add: collapsed_collapse)
  then have "\<forall>n \<in> set (concat (map visible (visible ?t))). visible n = []"
    by (simp only: list_all_iff) (blast intro: collapsed_visible)
  then have d: "descendants ?t = ?t # visible ?t @ concat (map visible (visible ?t))"
    by (rule descendants_three_levels)
  have v0: "visible ?base = map hierarchy (record_children p)"
    by (simp only: visible_map_attrs visible_hierarchy)
  have l1: "length (visible ?t) = length (record_children p)"
    by (simp only: visible_initial_collapse v0 length_map)
  have l2: "length (concat (map visible (visible ?t)))
      = sum_list (map (\<lambda>c. length (record_children c)) (record_children p))"
    by (simp only: gc v0 length_map length_grandchildren)
  have "length (?t # visible ?t @ concat (map visible (visible ?t)))
      = 1 + length (record_children p)
         + sum_list (map (\<lambda>c. length (record_children c)) (record_children p))"
    by (simp only: length_Cons length_append l1 l2)
  then have len: "length (descendants ?t) = 1 + length (record_children p)
         + sum_list (map (\<lambda>c. length (record_children c)) (record_children p))"
    by (simp only: d)
  have kept: "list_all2 kept_below (concat (map visible (visible ?t)))
                (concat (map visible (visible ?base)))"
    by (simp only: gc kept_below_grandchildren)
  have paths: "\<forall>q. map_option attrs (node_at q ?t) = map_option attrs (node_at q ?base)"
    by (simp only: node_at_initial_collapse simp_thms)
  have h0: "hidden ?t = None"
    by (simp only: hidden_initial_collapse hidden_map_attrs hidden_hierarchy)
  have h1: "list_all (\<lambda>c. hidden c = None) (visible ?t)"
    by (simp only: visible_initial_collapse v0 list_all_iff)
      (simp add: hidden_collapse_below hidden_hierarchy)
  show ?thesis
    by (rule conjI [OF d conjI [OF len conjI [OF coll conjI [OF kept conjI [OF paths
          conjI [OF h0 h1]]]]]])
qed

theorem initial_collapse_shows_three_levels_witness:
  "length (descendants (initial_collapse (map_attrs (\<lambda>a. a) (hierarchy four_generations)))) = 4
   \<and> list_all collapsed
        (concat (map visible
           (visible (initial_collapse (map_attrs (\<lambda>a. a) (hierarchy four_generations))))))
   \<and> map_option (\<lambda>a. name (data a))
         (map_option attrs
            (node_at [0, 0, 0]
               (initial_collapse (map_attrs (\<lambda>a. a) (hierarchy four_generations)))))
       = Some (Some ''Great-grandma'')
   \<and> map_option (\<lambda>a. name (data a))
         (map_option attrs
            (hidden_at [0]
               (concat (map visible
                  (visible (initial_collapse
                     (map_attrs (\<lambda>a. a) (hierarchy four_generations))))) ! 0)))
       = Some (Some ''Great-grandma'')"
proof -
  note th = initial_collapse_shows_three_levels [of "\<lambda>a. a" four_generations]
  let ?base = "map_attrs (\<lambda>a. a) (hierarchy four_generations)"
  let ?t = "initial_collapse ?base"
  have n: "1 + length (record_children four_generations)
         + sum_list (map (\<lambda>c. length (record_children c)) (record_children four_generations))
        = 4"
    by code_simp
  have a: "length (descendants ?t) = 4"
    by (simp only: th [THEN conjunct2, THEN conjunct1] n)
  have b: "list_all collapsed (concat (map visible (visible ?t)))"
    by (rule th [THEN conjunct2, THEN conjunct2, THEN conjunct1])
  have p: "map_option attrs (node_at [0, 0, 0] ?t) = map_option attrs (node_at [0, 0, 0] ?base)"
    using th by blast
  have pv: "map_option (\<lambda>a. name (data a)) (map_option attrs (node_at [0, 0, 0] ?base))
              = Some (Some ''Great-grandma'')"
    by code_simp
  have c: "map_option (\<lambda>a. name (data a)) (map_option attrs (node_at [0, 0, 0] ?t))
              = Some (Some ''Great-grandma'')"
    by (simp only: p pv)
  have k: "list_all2 kept_below (concat (map visible (visible ?t)))
             (concat (map visible (visible ?base)))"
    using th by blast
  have l: "0 < length (concat (map visible (visible ?t)))"
    by code_simp
  have "kept_below (concat (map visible (visible ?t)) ! 0)
          (concat (map visible (visible ?base)) ! 0)"
    using list_all2_nthD [OF k l] .
  then have h: "map_option attrs (hidden_at [0] (concat (map visible (visible ?t)) ! 0))
      = map_option attrs (node_at [0] (concat (map visible (visible ?base)) ! 0))"
    unfolding kept_below_def by blast
  have hv: "map_option (\<lambda>a. name (data a))
              (map_option attrs (node_at [0] (concat (map visible (visible ?base)) ! 0)))
              = Some (Some ''Great-grandma'')"
    by code_simp
  have e: "map_option (\<lambda>a. name (data a))
              (map_option attrs (hidden_at [0] (concat (map visible (visible ?t)) ! 0)))
              = Some (Some ''Great-grandma'')"
    by (simp only: h hv)
  show ?thesis
    by (rule conjI [OF a conjI [OF b conjI [OF c e]]])
qed

text \<open>
  C1 as stated fails as soon as the root has a grandchild: the sample family has two
  children of the root and one grandchild, and four visible nodes after the collapse.
\<close>

theorem initial_collapse_counterexample:
  "length (descendants (initial_collapse (hierarchy four_generations)))
     \<noteq> 1 + length (record_children four_generations)"
  by code_simp

section \<open>The breakdown list of the detail panel\<close>

lemma descending_sort_key: "descending (sort_key (\<lambda>e. - snd e) entries)"
proof -
  have "sorted (map (\<lambda>e. - snd e) (sort_key (\<lambda>e. - snd e) entries))"
    by (rule sorted_sort_key)
  then show ?thesis
    by (simp add: descending_def sorted_map)
qed

lemma descending_filter: "descending xs \<Longrightarrow> descending (filter P xs)"
  unfolding descending_def by (rule sorted_wrt_filter)

lemma filter_weight_sort_key:
  fixes entries :: "(string \<times> real) list"
  shows "filter (\<lambda>e. snd e = w) (sort_key (\<lambda>e. - snd e) entries) = filter (\<lambda>e. snd e = w) entries"
proof -
  have "(\<lambda>e :: string \<times> real. - snd e = - w) = (\<lambda>e. snd e = w)"
    by auto
  then show ?thesis
    using sort_key_stable [of "\<lambda>e. - snd e" "- w" entries] by (simp only:)
qed

text \<open>
  C7 (amended). The breakdown list of the detail panel omits every entry whose weight is at
  most 0.001 and shows every other entry, ordered by descending weight; entries of equal
  weight keep the order they have in the mapping. Without a breakdown, or with an empty one,
  the panel shows \<open>N/A\<close>.
\<close>

theorem displayDetails_breakdown:
  "(details d = Some ds \<and> origin_breakdown ds = Some entries \<and> entries \<noteq> [] \<longrightarrow>
      detailOrigin (displayDetails d)
        = Ul (filter (\<lambda>e. threshold < snd e) (sort_key (\<lambda>e. - snd e) entries))
      \<and> set (items (detailOrigin (displayDetails d)))
          = {e \<in> set entries. threshold < snd e}
      \<and> descending (items (detailOrigin (displayDetails d)))
      \<and> (\<forall>w. filter (\<lambda>e. snd e = w) (items (detailOrigin (displayDetails d)))
                = (if threshold < w then filter (\<lambda>e. snd e = w) entries else [])))
   \<and> (details d = None \<or> (\<exists>ds. details d = Some ds \<and> origin_breakdown ds = None)
       \<or> (\<exists>ds. details d = Some ds \<and> origin_breakdown ds = Some []) \<longrightarrow>
         detailOrigin (displayDetails d) = NA)"
proof (intro conjI impI)
  assume a: "details d = Some ds \<and> origin_breakdown ds = Some entries \<and> entries \<noteq> []"
  let ?shown = "filter (\<lambda>e. threshold < snd e) (sort_key (\<lambda>e. - snd e) entries)"
  show eq: "detailOrigin (displayDetails d) = Ul ?shown"
    using a by (simp add: displayDetails_def Let_def)
  then have it: "items (detailOrigin (displayDetails d)) = ?shown"
    by (simp add: items_def)
  show "set (items (detailOrigin (displayDetails d))) = {e \<in> set entries. threshold < snd e}"
    unfolding it by auto
  show "descending (items (detailOrigin (displayDetails d)))"
    unfolding it by (intro descending_filter descending_sort_key)
  show "\<forall>w. filter (\<lambda>e. snd e = w) (items (detailOrigin (displayDetails d)))
                = (if threshold < w then filter (\<lambda>e. snd e = w) entries else [])"
  proof
    fix w
    have "filter (\<lambda>e. snd e = w) ?shown
        = filter (\<lambda>e. threshold < snd e) (filter (\<lambda>e. snd e = w) (sort_key (\<lambda>e. - snd e) entries))"
      by (simp add: conj_commute)
    also have "\<dots> = filter (\<lambda>e. threshold < snd e) (filter (\<lambda>e. snd e = w) entries)"
      by (simp only: filter_weight_sort_key)
    also have "\<dots> = (if threshold < w then filter (\<lambda>e. snd e = w) entries else [])"
      by (auto simp: filter_empty_conv intro: filter_cong)
    finally show "filter (\<lambda>e. snd e = w) (items (detailOrigin (displayDetails d)))
                = (if threshold < w then filter (\<lambda>e. snd e = w) entries else [])"
      unfolding it .
  qed
next
  assume "details d = None \<or> (\<exists>ds. details d = Some ds \<and> origin_breakdown ds = None)
       \<or> (\<exists>ds. details d = Some ds \<and> origin_breakdown ds = Some [])"
  then show "detailOrigin (displayDetails d) = NA"
    by (auto simp: displayDetails_def Let_def)
qed

theorem displayDetails_breakdown_witness:
  "detailOrigin (displayDetails
      (with_breakdown [(''England'', 0.25), (''Wales'', 0.0005), (''Ireland'', 0.75)]))
     = Ul [(''Ireland'', 0.75), (''England'', 0.25)]
   \<and> descending (items (detailOrigin (displayDetails
        (with_breakdown [(''England'', 0.25), (''Wales'', 0.0005), (''Ireland'', 0.75)]))))
   \<and> detailOrigin (displayDetails (Person None (Some ''Me'') None None None None)) = NA"
proof -
  let ?e = "[(''England'', 0.25 :: real), (''Wales'', 0.0005), (''Ireland'', 0.75)]"
  let ?ds = "\<lparr>origin_breakdown = Some ?e, year_info = None, raw = None\<rparr>"
  have h: "details (with_breakdown ?e) = Some ?ds \<and> origin_breakdown ?ds = Some ?e \<and> ?e \<noteq> []"
    by (simp add: with_breakdown_def)
  note th = displayDetails_breakdown [of "with_breakdown ?e" ?ds ?e, THEN conjunct1, rule_format, OF h]
  have v: "filter (\<lambda>e. threshold < snd e) (sort_key (\<lambda>e. - snd e) ?e)
             = [(''Ireland'', 0.75), (''England'', 0.25)]"
    by (simp add: threshold_def)
  have a: "detailOrigin (displayDetails (with_breakdown ?e)) = Ul [(''Ireland'', 0.75), (''England'', 0.25)]"
    using th [THEN conjunct1] by (simp only: v)
  have b: "descending (items (detailOrigin (displayDetails (with_breakdown ?e))))"
    by (rule th [THEN conjunct2, THEN conjunct2, THEN conjunct1])
  have c: "detailOrigin (displayDetails (Person None (Some ''Me'') None None None None)) = NA"
    using displayDetails_breakdown [of "Person None (Some ''Me'') None None None None"]
    by simp
  show ?thesis
    by (rule conjI [OF a conjI [OF b c]])
qed

text \<open>
  C7 as stated asks for strictly descending weights; two entries of the same weight are both
  shown, one after the other.
\<close>

theorem displayDetails_breakdown_counterexample:
  "\<not> strictly_descending
       (items (detailOrigin (displayDetails
          (with_breakdown [(''Ireland'', 0.5), (''England'', 0.5)]))))"
  by (simp add: strictly_descending_def items_def displayDetails_def with_breakdown_def
        threshold_def Let_def)

section \<open>The extent of the laid-out nodes\<close>

lemma bounds_step_parts:
  "minX_node (bounds_step d b) = lower (coord (node_x (attrs d))) (minX_node b)"
  "maxX_node (bounds_step d b) = upper (coord (node_x (attrs d))) (maxX_node b)"
  "minY_node (bounds_step d b) = lower (coord (node_y (attrs d))) (minY_node b)"
  "maxY_node (bounds_step d b) = upper (coord (node_y (attrs d))) (maxY_node b)"
  by (simp_all add: bounds_step_def Let_def lower_def upper_def)

lemma fold_bounds_parts:
  "minX_node (fold bounds_step nodes b)
     = fold (\<lambda>d. lower (coord (node_x (attrs d)))) nodes (minX_node b)"
  "maxX_node (fold bounds_step nodes b)
     = fold (\<lambda>d. upper (coord (node_x (attrs d)))) nodes (maxX_node b)"
  "minY_node (fold bounds_step nodes b)
     = fold (\<lambda>d. lower (coord (node_y (attrs d)))) nodes (minY_node b)"
  "maxY_node (fold bounds_step nodes b)
     = fold (\<lambda>d. upper (coord (node_y (attrs d)))) nodes (maxY_node b)"
  by (induction nodes arbitrary: b) (simp_all add: bounds_step_parts)

lemma lower_fold_num:
  fixes f :: "node \<Rightarrow> real option"
  assumes "\<forall>d \<in> set nodes. f d \<noteq> None"
  shows "\<exists>r. fold (\<lambda>d. lower (coord (f d))) nodes (Num m) = Num r \<and> r \<le> m
           \<and> (\<forall>d \<in> set nodes. \<forall>v. f d = Some v \<longrightarrow> r \<le> v)
           \<and> (r = m \<or> (\<exists>d \<in> set nodes. f d = Some r))"
  using assms
proof (induction nodes arbitrary: m)
  case Nil
  then show ?case by simp
next
  case (Cons d nodes)
  then obtain v where v: "f d = Some v" by auto
  have step: "lower (coord (f d)) (Num m) = Num (min v m)"
    by (simp add: lower_def coord_def v min_def)
  from Cons.IH [of "min v m"] Cons.prems
  obtain r where r: "fold (\<lambda>d. lower (coord (f d))) nodes (Num (min v m)) = Num r"
    "r \<le> min v m" "\<forall>d \<in> set nodes. \<forall>v. f d = Some v \<longrightarrow> r \<le> v"
    "r = min v m \<or> (\<exists>d \<in> set nodes. f d = Some r)"
    by auto
  have "r = m \<or> (\<exists>d' \<in> set (d # nodes). f d' = Some r)"
    using r(4) v by (auto simp: min_def split: if_splits)
  then show ?case
    using r(1,2,3) v step by auto
qed

lemma upper_fold_num:
  fixes f :: "node \<Rightarrow> real option"
  assumes "\<forall>d \<in> set nodes. f d \<noteq> None"
  shows "\<exists>r. fold (\<lambda>d. upper (coord (f d))) nodes (Num m) = Num r \<and> m \<le> r
           \<and> (\<forall>d \<in> set nodes. \<forall>v. f d = Some v \<longrightarrow> v \<le> r)
           \<and> (r = m \<or> (\<exists>d \<in> set nodes. f d = Some r))"
  using assms
proof (induction nodes arbitrary: m)
  case Nil
  then show ?case by simp
next
  case (Cons d nodes)
  then obtain v where v: "f d = Some v" by auto
  have step: "upper (coord (f d)) (Num m) = Num (max v m)"
    by (simp add: upper_def coord_def v max_def)
  from Cons.IH [of "max v m"] Cons.prems
  obtain r where r: "fold (\<lambda>d. upper (coord (f d))) nodes (Num (max v m)) = Num r"
    "max v m \<le> r" "\<forall>d \<in> set nodes. \<forall>v. f d = Some v \<longrightarrow> v \<le> r"
    "r = max v m \<or> (\<exists>d \<in> set nodes. f d = Some r)"
    by auto
  have "r = m \<or> (\<exists>d' \<in> set (d # nodes). f d' = Some r)"
    using r(4) v by (auto simp: max_def split: if_splits)
  then show ?case
    using r(1,2,3) v step by auto
qed

lemma lower_fold_inf:
  fixes f :: "node \<Rightarrow> real option"
  assumes "\<forall>d \<in> set nodes. f d \<noteq> None" "nodes \<noteq> []"
  shows "\<exists>r. fold (\<lambda>d. lower (coord (f d))) nodes PosInf = Num r
           \<and> (\<forall>d \<in> set nodes. \<forall>v. f d = Some v \<longrightarrow> r \<le> v)
           \<and> (\<exists>d \<in> set nodes. f d = Some r)"
proof -
  from assms obtain d rest where n: "nodes = d # rest" by (cases nodes) auto
  then obtain v where v: "f d = Some v" using assms(1) by auto
  have step: "lower (coord (f d)) PosInf = Num v"
    by (simp add: lower_def coord_def v)
  from lower_fold_num [of rest f v] assms(1) n
  obtain r where r: "fold (\<lambda>d. lower (coord (f d))) rest (Num v) = Num r"
    "r \<le> v" "\<forall>d \<in> set rest. \<forall>v. f d = Some v \<longrightarrow> r \<le> v"
    "r = v \<or> (\<exists>d \<in> set rest. f d = Some r)"
    by auto
  show ?thesis
    using r v step unfolding n by auto
qed

lemma upper_fold_inf:
  fixes f :: "node \<Rightarrow> real option"
  assumes "\<forall>d \<in> set nodes. f d \<noteq> None" "nodes \<noteq> []"
  shows "\<exists>r. fold (\<lambda>d. upper (coord (f d))) nodes NegInf = Num r
           \<and> (\<forall>d \<in> set nodes. \<forall>v. f d = Some v \<longrightarrow> v \<le> r)
           \<and> (\<exists>d \<in> set nodes. f d = Some r)"
proof -
  from assms obtain d rest where n: "nodes = d # rest" by (cases nodes) auto
  then obtain v where v: "f d = Some v" using assms(1) by auto
  have step: "upper (coord (f d)) NegInf = Num v"
    by (simp add: upper_def coord_def v)
  from upper_fold_num [of rest f v] assms(1) n
  obtain r where r: "fold (\<lambda>d. upper (coord (f d))) rest (Num v) = Num r"
    "v \<le> r" "\<forall>d \<in> set rest. \<forall>v. f d = Some v \<longrightarrow> v \<le> r"
    "r = v \<or> (\<exists>d \<in> set rest. f d = Some r)"
    by auto
  show ?thesis
    using r v step unfolding n by auto
qed

lemma node_bounds_placed:
  assumes "\<forall>d \<in> set nodes. placed d" "nodes \<noteq> []"
  shows "\<exists>loX hiX loY hiY.
           node_bounds nodes = \<lparr>minX_node = Num loX, maxX_node = Num hiX,
                                  minY_node = Num loY, maxY_node = Num hiY\<rparr>
           \<and> extent nodes loX hiX loY hiY"
proof -
  let ?b0 = "\<lparr>minX_node = PosInf, maxX_node = NegInf, minY_node = PosInf, maxY_node = NegInf\<rparr>"
  let ?b = "fold bounds_step nodes ?b0"
  have px: "\<forall>d \<in> set nodes. node_x (attrs d) \<noteq> None"
    and py: "\<forall>d \<in> set nodes. node_y (attrs d) \<noteq> None"
    using assms(1) by (simp_all add: placed_def)
  from lower_fold_inf [OF px assms(2)] obtain loX where loX:
    "minX_node ?b = Num loX" "\<forall>d \<in> set nodes. \<forall>v. node_x (attrs d) = Some v \<longrightarrow> loX \<le> v"
    "\<exists>d \<in> set nodes. node_x (attrs d) = Some loX"
    by (auto simp: fold_bounds_parts)
  from upper_fold_inf [OF px assms(2)] obtain hiX where hiX:
    "maxX_node ?b = Num hiX" "\<forall>d \<in> set nodes. \<forall>v. node_x (attrs d) = Some v \<longrightarrow> v \<le> hiX"
    "\<exists>d \<in> set nodes. node_x (attrs d) = Some hiX"
    by (auto simp: fold_bounds_parts)
  from lower_fold_inf [OF py assms(2)] obtain loY where loY:
    "minY_node ?b = Num loY" "\<forall>d \<in> set nodes. \<forall>v. node_y (attrs d) = Some v \<longrightarrow> loY \<le> v"
    "\<exists>d \<in> set nodes. node_y (attrs d) = Some loY"
    by (auto simp: fold_bounds_parts)
  from upper_fold_inf [OF py assms(2)] obtain hiY where hiY:
    "maxY_node ?b = Num hiY" "\<forall>d \<in> set nodes. \<forall>v. node_y (attrs d) = Some v \<longrightarrow> v \<le> hiY"
    "\<exists>d \<in> set nodes. node_y (attrs d) = Some hiY"
    by (auto simp: fold_bounds_parts)
  have "?b = \<lparr>minX_node = Num loX, maxX_node = Num hiX, minY_node = Num loY, maxY_node = Num hiY\<rparr>"
    using loX(1) hiX(1) loY(1) hiY(1) by (cases ?b) simp
  then have nb: "node_bounds nodes
      = \<lparr>minX_node = Num loX, maxX_node = Num hiX, minY_node = Num loY, maxY_node = Num hiY\<rparr>"
    using assms(2) by (simp add: node_bounds_def)
  have "\<forall>d \<in> set nodes. \<exists>vx vy. node_x (attrs d) = Some vx \<and> node_y (attrs d) = Some vy
           \<and> loX \<le> vx \<and> vx \<le> hiX \<and> loY \<le> vy \<and> vy \<le> hiY"
  proof
    fix d assume d: "d \<in> set nodes"
    then obtain vx vy where "node_x (attrs d) = Some vx" "node_y (attrs d) = Some vy"
      using px py by blast
    then show "\<exists>vx vy. node_x (attrs d) = Some vx \<and> node_y (attrs d) = Some vy
           \<and> loX \<le> vx \<and> vx \<le> hiX \<and> loY \<le> vy \<and> vy \<le> hiY"
      using d loX(2) hiX(2) loY(2) hiY(2) by auto
  qed
  then have "extent nodes loX hiX loY hiY"
    unfolding extent_def using loX(3) hiX(3) loY(3) hiY(3) by blast
  with nb show ?thesis by blast
qed

section \<open>What holds of every visible node\<close>

lemma bfs_hereditary:
  assumes step: "\<And>d c. Q d \<Longrightarrow> c \<in> set (visible d) \<Longrightarrow> Q c"
  shows "\<forall>e \<in> set es. Q (snd e) \<Longrightarrow> \<forall>e \<in> set (bfs es). Q (snd e)"
proof (induction es rule: bfs.induct)
  case 1
  show ?case by simp
next
  case (2 e es)
  have "\<forall>x \<in> set (concat (map under (e # es))). Q (snd x)"
  proof
    fix x assume "x \<in> set (concat (map under (e # es)))"
    then have "\<exists>e0 \<in> set (e # es). x \<in> set (under e0)"
      by (simp only: set_concat set_map) blast
    then obtain e0 where e0: "e0 \<in> set (e # es)" "x \<in> set (under e0)" by blast
    then have "snd x \<in> set (map snd (under e0))" by (simp del: snd_under)
    then have "snd x \<in> set (visible (snd e0))" by (simp only: snd_under)
    then show "Q (snd x)" using step e0(1) "2.prems" by blast
  qed
  then have "\<forall>x \<in> set (bfs (concat (map under (e # es)))). Q (snd x)"
    by (rule "2.IH")
  then show ?case
    using "2.prems" by auto
qed

lemma descendants_hereditary:
  assumes "\<And>d c. Q d \<Longrightarrow> c \<in> set (visible d) \<Longrightarrow> Q c" "Q t"
  shows "\<forall>d \<in> set (descendants t). Q d"
proof -
  have "\<forall>e \<in> set (bfs [([], t)]). Q (snd e)"
    by (rule bfs_hereditary [of Q]) (use assms in auto)
  then show ?thesis
    by (simp add: descendants_def)
qed

lemma descendants_nonempty: "descendants t \<noteq> []"
  by (simp add: descendants_def)

lemma all_placed_visible: "all_placed d \<Longrightarrow> c \<in> set (visible d) \<Longrightarrow> all_placed c"
  by (cases d) (auto simp: visible_def list_all_iff split: option.splits)

lemma all_placed_placed: "all_placed d \<Longrightarrow> placed d"
  by (cases d) (simp add: placed_def)

lemma all_placed_place: "all_placed (place f p d)"
proof (induction f p d rule: place.induct)
  case (1 f p a cs hs)
  show ?case
  proof (cases cs)
    case None
    then show ?thesis by simp
  next
    case (Some ds)
    have "all_placed (case e of (i, c) \<Rightarrow> place f (p @ [i]) c)"
      if "e \<in> set (enumerate 0 ds)" for e
    proof -
      obtain i c where e: "(i, c) = e" by (cases e) simp
      from 1 [OF Some that e] show ?thesis
        unfolding e [symmetric] by simp
    qed
    then show ?thesis
      using Some by (simp add: list_all_iff del: map_snd_enumerate)
  qed
qed

lemma placed_layout: "\<forall>d \<in> set (descendants (treeLayout pos t)). placed d"
proof -
  have "\<forall>d \<in> set (descendants (treeLayout pos t)). all_placed d"
    by (rule descendants_hereditary [of all_placed])
      (simp_all add: all_placed_visible treeLayout_def all_placed_place)
  then show ?thesis
    by (blast intro: all_placed_placed)
qed

lemma all_stashed_visible: "all_stashed d \<Longrightarrow> c \<in> set (visible d) \<Longrightarrow> all_stashed c"
  by (cases d) (auto simp: visible_def list_all_iff split: option.splits)

lemma all_stashed_stash: "all_stashed (stash d)"
proof (induction d rule: stash.induct)
  case (1 a cs hs)
  then show ?case
    by (cases cs) (auto simp: list_all_iff)
qed

lemma stashed_descendants:
  "\<forall>d \<in> set (descendants (stash t)). previous d = position d"
proof -
  have "\<forall>d \<in> set (descendants (stash t)). all_stashed d"
    by (rule descendants_hereditary [of all_stashed])
      (simp_all add: all_stashed_visible all_stashed_stash)
  moreover have "all_stashed d \<Longrightarrow> previous d = position d" for d
    by (cases d) (simp add: previous_def position_def)
  ultimately show ?thesis by blast
qed

lemma erase_stash: "erase (stash d) = erase d"
proof (induction d rule: stash.induct)
  case (1 a cs hs)
  then show ?case
    by (cases cs) simp_all
qed

lemma erase_update_at:
  "node_at p t = Some d \<Longrightarrow> erase (f d) = erase d \<Longrightarrow> erase (update_at p f t) = erase t"
proof (induction p arbitrary: t)
  case Nil
  then show ?case by simp
next
  case (Cons i p)
  obtain a cs hs where t: "t = Node a cs hs" by (cases t)
  from Cons.prems(1) have i: "i < length (kids t)" and at: "node_at p (kids t ! i) = Some d"
    by (simp_all split: if_splits)
  have e: "erase (update_at p f (kids t ! i)) = erase (kids t ! i)"
    using Cons.IH [OF at Cons.prems(2)] .
  have "map erase (ds[i := update_at p f (ds ! i)]) = map erase ds"
    if "ds = kids t" for ds
    using e i that by (simp add: map_update list_update_same_conv)
  then show ?case
    using i unfolding t by (auto simp: kids_def split: option.splits)
qed

lemma update_at_nowhere: "node_at p t = None \<Longrightarrow> update_at p f t = t"
proof (induction p arbitrary: t)
  case Nil
  then show ?case by simp
next
  case (Cons i p)
  obtain a cs hs where t: "t = Node a cs hs" by (cases t)
  show ?case
  proof (cases "i < length (kids t)")
    case False
    then show ?thesis unfolding t by (auto simp: kids_def split: option.splits)
  next
    case True
    then have "node_at p (kids t ! i) = None" using Cons.prems by simp
    then have "update_at p f (kids t ! i) = kids t ! i" by (rule Cons.IH)
    then show ?thesis
      using True unfolding t by (auto simp: kids_def split: option.splits)
  qed
qed

lemma erase_update_attrs:
  assumes "\<And>a. g a\<lparr>node_id := None, node_x0 := None, node_y0 := None\<rparr>
                  = a\<lparr>node_id := None, node_x0 := None, node_y0 := None\<rparr>"
  shows "erase (update_at p (map_attrs g) t) = erase t"
proof (cases "node_at p t")
  case None
  then show ?thesis by (simp add: update_at_nowhere)
next
  case (Some d)
  have "erase (map_attrs g d) = erase d"
    by (cases d) (simp add: assms)
  with Some show ?thesis by (rule erase_update_at)
qed

lemma key_erased:
  "(fst (key a n))\<lparr>node_id := None, node_x0 := None, node_y0 := None\<rparr>
     = a\<lparr>node_id := None, node_x0 := None, node_y0 := None\<rparr>"
  by (simp add: key_def)

lemma key_at_some:
  "node_at p (fst s) = Some d \<Longrightarrow>
     key_at p s = (update_at p (set_attrs (fst (key (attrs d) (snd s)))) (fst s),
                   snd (key (attrs d) (snd s)))"
  by (simp add: key_at_def case_prod_unfold Let_def)

lemma key_at_none: "node_at p (fst s) = None \<Longrightarrow> key_at p s = s"
  by (simp add: key_at_def)

lemma erase_key_at: "erase (fst (key_at p s)) = erase (fst s)"
proof (cases "node_at p (fst s)")
  case None
  then show ?thesis by (simp add: key_at_none)
next
  case (Some d)
  have "erase (set_attrs (fst (key (attrs d) (snd s))) d) = erase d"
    by (cases d) (simp add: key_erased)
  with Some have "erase (update_at p (set_attrs (fst (key (attrs d) (snd s)))) (fst s))
                    = erase (fst s)"
    by (rule erase_update_at)
  then show ?thesis
    by (simp add: key_at_some [OF Some])
qed

lemma erase_fold_key_at: "erase (fst (fold key_at ps s)) = erase (fst s)"
  by (induction ps arbitrary: s) (simp_all add: erase_key_at)

lemma erase_join_keys: "erase (fst (join_keys s)) = erase (fst s)"
  unfolding join_keys_def by (rule erase_fold_key_at)

lemma visible_erase: "visible (erase d) = map erase (visible d)"
  by (cases d) (simp add: visible_def split: option.splits)

lemma under_erase: "under (apsnd erase e) = map (apsnd erase) (under e)"
proof -
  have "enumerate 0 (map erase xs) = map (apsnd erase) (enumerate 0 xs)" for xs :: "node list"
    by (simp add: enumerate_eq_zip zip_map2 apsnd_def map_prod_def case_prod_unfold)
  then show ?thesis
    by (cases e) (simp add: under_def visible_erase case_prod_unfold apsnd_def map_prod_def)
qed

lemma bfs_erase: "bfs (map (apsnd erase) es) = map (apsnd erase) (bfs es)"
proof (induction es rule: bfs.induct)
  case 1
  show ?case by simp
next
  case (2 e es)
  have c: "concat (map under (map (apsnd erase) (e # es)))
         = map (apsnd erase) (concat (map under (e # es)))"
    by (simp only: map_map comp_def under_erase map_concat)
  have "bfs (map (apsnd erase) (e # es))
       = map (apsnd erase) (e # es) @ bfs (concat (map under (map (apsnd erase) (e # es))))"
    by (rule bfs_unfold)
  also have "\<dots> = map (apsnd erase) (e # es) @ map (apsnd erase) (bfs (concat (map under (e # es))))"
    by (simp only: c "2.IH")
  also have "\<dots> = map (apsnd erase) (bfs (e # es))"
    by simp
  finally show ?case .
qed

lemma descendants_erase: "descendants (erase t) = map erase (descendants t)"
proof -
  have "bfs [([], erase t)] = map (apsnd erase) (bfs [([], t)])"
    using bfs_erase [of "[([], t)]"] by simp
  then show ?thesis
    by (simp add: descendants_def comp_def)
qed

lemma position_erase: "position (erase d) = position d"
  by (cases d) (simp add: position_def)

lemma positions_erase:
  assumes "erase t' = erase t"
  shows "map position (descendants t') = map position (descendants t)"
proof -
  have "map position (descendants u) = map position (descendants (erase u))" for u
    by (simp add: descendants_erase comp_def position_erase)
  then show ?thesis
    using assms by metis
qed

section \<open>The redraw: bounds, sizes, transform and stashed positions\<close>

lemma extent_by_positions:
  "extent nodes loX hiX loY hiY \<longleftrightarrow>
     (\<forall>q \<in> set (map position nodes). \<exists>vx vy. q = (Some vx, Some vy)
           \<and> loX \<le> vx \<and> vx \<le> hiX \<and> loY \<le> vy \<and> vy \<le> hiY)
     \<and> (\<exists>q \<in> set (map position nodes). fst q = Some loX)
     \<and> (\<exists>q \<in> set (map position nodes). fst q = Some hiX)
     \<and> (\<exists>q \<in> set (map position nodes). snd q = Some loY)
     \<and> (\<exists>q \<in> set (map position nodes). snd q = Some hiY)"
  by (simp add: extent_def position_def)

lemma extent_positions:
  "map position nodes' = map position nodes \<Longrightarrow>
     extent nodes' loX hiX loY hiY = extent nodes loX hiX loY hiY"
  by (simp only: extent_by_positions)

lemma placed_by_position: "placed d \<longleftrightarrow> (\<exists>vx vy. position d = (Some vx, Some vy))"
  by (auto simp: placed_def position_def)

lemma placed_positions:
  assumes "map position nodes' = map position nodes" "\<forall>d \<in> set nodes. placed d"
  shows "\<forall>d \<in> set nodes'. placed d"
proof
  fix d assume "d \<in> set nodes'"
  then have "position d \<in> set (map position nodes')" by simp
  then have "position d \<in> set (map position nodes)" by (simp only: assms(1))
  then obtain d' where "d' \<in> set nodes" "position d' = position d" by auto
  then show "placed d" using assms(2) unfolding placed_by_position by metis
qed

lemma layout_extent:
  "\<exists>loX hiX loY hiY.
     node_bounds (descendants (treeLayout pos t))
       = \<lparr>minX_node = Num loX, maxX_node = Num hiX, minY_node = Num loY, maxY_node = Num hiY\<rparr>
     \<and> extent (descendants (treeLayout pos t)) loX hiX loY hiY"
  by (rule node_bounds_placed) (simp_all add: placed_layout descendants_nonempty)

lemma updateTree_tree:
  "rootNodeD3 (updateTree pos cw p v)
     = stash (fst (join_keys (treeLayout pos (update_at p (map_attrs source_defaults)
                                               (rootNodeD3 v)), nodeIndex v)))"
  by (simp add: updateTree_def Let_def)

lemma alt_updateTree_tree:
  "rootNodeD3 (alt_updateTree pos cw p v)
     = stash (fst (join_keys (treeLayout pos (update_at p (map_attrs alt_source_defaults)
                                               (rootNodeD3 v)), nodeIndex v)))"
  by (simp add: alt_updateTree_def Let_def)

lemma updateTree_positions:
  "map position (descendants (rootNodeD3 (updateTree pos cw p v)))
     = map position (descendants (treeLayout pos (update_at p (map_attrs source_defaults)
                                                    (rootNodeD3 v))))"
  unfolding updateTree_tree
  by (rule positions_erase) (simp add: erase_stash erase_join_keys)

lemma alt_updateTree_positions:
  "map position (descendants (rootNodeD3 (alt_updateTree pos cw p v)))
     = map position (descendants (treeLayout pos (update_at p (map_attrs alt_source_defaults)
                                                    (rootNodeD3 v))))"
  unfolding alt_updateTree_tree
  by (rule positions_erase) (simp add: erase_stash erase_join_keys)

lemma updateTree_view:
  assumes "node_bounds (descendants (treeLayout pos (update_at p (map_attrs source_defaults)
                                                       (rootNodeD3 v))))
       = \<lparr>minX_node = Num loX, maxX_node = Num hiX, minY_node = Num loY, maxY_node = Num hiY\<rparr>"
  shows "svg_width (updateTree pos cw p v)
           = Num (max (calculatedInitialWidth cw) (hiY - loY + margin_left + margin_right + 200))"
    and "svg_height (updateTree pos cw p v)
           = Num (max initialHeight (hiX - loX + margin_top + margin_bottom + 100))"
    and "g_transform (updateTree pos cw p v) = g_transform v"
  by (simp_all add: updateTree_def Let_def assms)

lemma alt_updateTree_view:
  assumes "node_bounds (descendants (treeLayout pos (update_at p (map_attrs alt_source_defaults)
                                                       (rootNodeD3 v))))
       = \<lparr>minX_node = Num loX, maxX_node = Num hiX, minY_node = Num loY, maxY_node = Num hiY\<rparr>"
  shows "svg_width (alt_updateTree pos cw p v)
           = Num (max (alt_calculatedInitialWidth cw)
                    (hiY - loY + alt_margin_left + alt_margin_right + 250))"
    and "svg_height (alt_updateTree pos cw p v)
           = Num (max alt_initialHeight (hiX - loX + alt_margin_top + alt_margin_bottom + 60))"
    and "g_transform (alt_updateTree pos cw p v)
           = Translate (Num (alt_margin_left - loY)) (Num (alt_margin_top - loX))"
  by (simp_all add: alt_updateTree_def Let_def assms)

text \<open>
  C8. The bounds computed after a layout pass are finite and contain the position of every
  visible node (each bound is attained by one of them); so do the bounds of any non-empty
  list of nodes that carry positions; the empty list gives the single point 0. The width
  and height given to the drawing surface are never below the initial width (itself at least
  600) and the initial height.
\<close>

theorem bounds_contain_visible_nodes:
  "(\<exists>loX hiX loY hiY.
       node_bounds (descendants (treeLayout pos t))
         = \<lparr>minX_node = Num loX, maxX_node = Num hiX, minY_node = Num loY, maxY_node = Num hiY\<rparr>
       \<and> extent (descendants (treeLayout pos t)) loX hiX loY hiY)
   \<and> ((\<forall>d \<in> set nodes. placed d) \<and> nodes \<noteq> [] \<longrightarrow>
        (\<exists>loX hiX loY hiY.
           node_bounds nodes
             = \<lparr>minX_node = Num loX, maxX_node = Num hiX, minY_node = Num loY, maxY_node = Num hiY\<rparr>
           \<and> extent nodes loX hiX loY hiY))
   \<and> node_bounds []
        = \<lparr>minX_node = Num 0, maxX_node = Num 0, minY_node = Num 0, maxY_node = Num 0\<rparr>
   \<and> (\<exists>w h. svg_width (updateTree pos cw p v) = Num w
          \<and> svg_height (updateTree pos cw p v) = Num h
          \<and> calculatedInitialWidth cw \<le> w \<and> 600 \<le> w \<and> initialHeight \<le> h)"
proof (intro conjI impI)
  show "\<exists>loX hiX loY hiY.
       node_bounds (descendants (treeLayout pos t))
         = \<lparr>minX_node = Num loX, maxX_node = Num hiX, minY_node = Num loY, maxY_node = Num hiY\<rparr>
       \<and> extent (descendants (treeLayout pos t)) loX hiX loY hiY"
    by (rule layout_extent)
next
  assume "(\<forall>d \<in> set nodes. placed d) \<and> nodes \<noteq> []"
  then show "\<exists>loX hiX loY hiY.
           node_bounds nodes
             = \<lparr>minX_node = Num loX, maxX_node = Num hiX, minY_node = Num loY, maxY_node = Num hiY\<rparr>
           \<and> extent nodes loX hiX loY hiY"
    by (intro node_bounds_placed) simp_all
next
  show "node_bounds []
        = \<lparr>minX_node = Num 0, maxX_node = Num 0, minY_node = Num 0, maxY_node = Num 0\<rparr>"
    by (simp add: node_bounds_def)
next
  from layout_extent [of pos "update_at p (map_attrs source_defaults) (rootNodeD3 v)"]
  obtain loX hiX loY hiY where
    "node_bounds (descendants (treeLayout pos (update_at p (map_attrs source_defaults)
                                                       (rootNodeD3 v))))
       = \<lparr>minX_node = Num loX, maxX_node = Num hiX, minY_node = Num loY, maxY_node = Num hiY\<rparr>"
    by blast
  note sz = updateTree_view [OF this, of cw]
  have "600 \<le> calculatedInitialWidth cw"
    by (simp add: calculatedInitialWidth_def)
  then show "\<exists>w h. svg_width (updateTree pos cw p v) = Num w
          \<and> svg_height (updateTree pos cw p v) = Num h
          \<and> calculatedInitialWidth cw \<le> w \<and> 600 \<le> w \<and> initialHeight \<le> h"
    unfolding sz by (intro exI conjI) (rule refl, rule refl, simp_all)
qed


theorem bounds_contain_visible_nodes_witness:
  "node_bounds (descendants (treeLayout sample_layout (hierarchy four_generations)))
     = \<lparr>minX_node = Num (- 20), maxX_node = Num 20, minY_node = Num 0, maxY_node = Num 750\<rparr>
   \<and> extent (descendants (treeLayout sample_layout (hierarchy four_generations))) (- 20) 20 0 750
   \<and> svg_width (updateTree sample_layout 1000 [] sample_view) = Num 1000
   \<and> svg_height (updateTree sample_layout 1000 [] sample_view) = Num 600"
proof -
  let ?nodes = "descendants (treeLayout sample_layout (hierarchy four_generations))"
  have nb: "node_bounds ?nodes
     = \<lparr>minX_node = Num (- 20), maxX_node = Num 20, minY_node = Num 0, maxY_node = Num 750\<rparr>"
    by code_simp
  have h: "(\<forall>d \<in> set ?nodes. placed d) \<and> ?nodes \<noteq> []"
    by (simp add: placed_layout descendants_nonempty)
  from bounds_contain_visible_nodes [of sample_layout "hierarchy four_generations" ?nodes
      1000 "[]" sample_view] h
  obtain loX hiX loY hiY where
    b: "node_bounds ?nodes
         = \<lparr>minX_node = Num loX, maxX_node = Num hiX, minY_node = Num loY, maxY_node = Num hiY\<rparr>"
    and e: "extent ?nodes loX hiX loY hiY"
    by blast
  from b have "loX = - 20" "hiX = 20" "loY = 0" "hiY = 750"
    unfolding nb by simp_all
  with e have ex: "extent ?nodes (- 20) 20 0 750" by simp
  have w: "svg_width (updateTree sample_layout 1000 [] sample_view) = Num 1000"
    by code_simp
  have ht: "svg_height (updateTree sample_layout 1000 [] sample_view) = Num 600"
    by code_simp
  show ?thesis
    by (rule conjI [OF nb conjI [OF ex conjI [OF w ht]]])
qed

text \<open>
  C6. After a redraw every visible node's previous position equals its position, and the
  positions of the visible nodes are those the layout pass of this redraw computed, node by
  node. This holds for the redraw of both scripts.
\<close>

theorem previous_position_stashed:
  "(\<forall>d \<in> set (descendants (rootNodeD3 (updateTree pos cw p v))).
       previous d = position d \<and> placed d)
   \<and> map position (descendants (rootNodeD3 (updateTree pos cw p v)))
       = map position (descendants (treeLayout pos (update_at p (map_attrs source_defaults)
                                                      (rootNodeD3 v))))
   \<and> (\<forall>d \<in> set (descendants (rootNodeD3 (alt_updateTree pos cw p v))).
       previous d = position d \<and> placed d)
   \<and> map position (descendants (rootNodeD3 (alt_updateTree pos cw p v)))
       = map position (descendants (treeLayout pos (update_at p (map_attrs alt_source_defaults)
                                                      (rootNodeD3 v))))"
proof (intro conjI ballI)
  fix d assume "d \<in> set (descendants (rootNodeD3 (updateTree pos cw p v)))"
  then show "previous d = position d"
    unfolding updateTree_tree using stashed_descendants by blast
next
  fix d assume "d \<in> set (descendants (rootNodeD3 (updateTree pos cw p v)))"
  then show "placed d"
    using placed_positions [OF updateTree_positions placed_layout] by blast
next
  show "map position (descendants (rootNodeD3 (updateTree pos cw p v)))
       = map position (descendants (treeLayout pos (update_at p (map_attrs source_defaults)
                                                      (rootNodeD3 v))))"
    by (rule updateTree_positions)
next
  fix d assume "d \<in> set (descendants (rootNodeD3 (alt_updateTree pos cw p v)))"
  then show "previous d = position d"
    unfolding alt_updateTree_tree using stashed_descendants by blast
next
  fix d assume "d \<in> set (descendants (rootNodeD3 (alt_updateTree pos cw p v)))"
  then show "placed d"
    using placed_positions [OF alt_updateTree_positions placed_layout] by blast
next
  show "map position (descendants (rootNodeD3 (alt_updateTree pos cw p v)))
       = map position (descendants (treeLayout pos (update_at p (map_attrs alt_source_defaults)
                                                      (rootNodeD3 v))))"
    by (rule alt_updateTree_positions)
qed

theorem previous_position_stashed_witness:
  "map previous (descendants (rootNodeD3 (updateTree sample_layout 1000 [] sample_view)))
     = [(Some 0, Some 0), (Some (- 20), Some 250), (Some 20, Some 250), (Some (- 20), Some 500)]
   \<and> map position (descendants (rootNodeD3 (updateTree sample_layout 1000 [] sample_view)))
     = [(Some 0, Some 0), (Some (- 20), Some 250), (Some 20, Some 250), (Some (- 20), Some 500)]"
proof -
  let ?nodes = "descendants (rootNodeD3 (updateTree sample_layout 1000 [] sample_view))"
  have a: "map position ?nodes
     = [(Some 0, Some 0), (Some (- 20), Some 250), (Some 20, Some 250), (Some (- 20), Some 500)]"
    by code_simp
  have "\<forall>d \<in> set ?nodes. previous d = position d"
    using previous_position_stashed [of sample_layout 1000 "[]" sample_view] by blast
  then have "map previous ?nodes = map position ?nodes"
    by simp
  then have b: "map previous ?nodes
     = [(Some 0, Some 0), (Some (- 20), Some 250), (Some 20, Some 250), (Some (- 20), Some 500)]"
    by (simp only: a)
  show ?thesis
    by (rule conjI [OF b a])
qed

text \<open>
  C5 (amended). The redraw of the script with pan and zoom (\<open>tree_logic.js\<close>) leaves the
  group's transform as it is: it is the margins at load, and afterwards what the zoom
  behaviour wrote. The redraw of the second script sets the translation, every time, to
  (left margin - minY, top margin - minX) over the visible nodes: the smallest coordinates
  land on the margins, and every visible node lies inside the drawing surface.
\<close>

theorem redraw_transform:
  "g_transform (updateTree pos cw p v) = g_transform v
   \<and> (\<exists>loX hiX loY hiY w h.
         extent (descendants (rootNodeD3 (alt_updateTree pos cw p v))) loX hiX loY hiY
         \<and> g_transform (alt_updateTree pos cw p v)
             = Translate (Num (alt_margin_left - loY)) (Num (alt_margin_top - loX))
         \<and> svg_width (alt_updateTree pos cw p v) = Num w
         \<and> svg_height (alt_updateTree pos cw p v) = Num h
         \<and> (\<forall>d \<in> set (descendants (rootNodeD3 (alt_updateTree pos cw p v))).
               \<exists>vx vy. position d = (Some vx, Some vy)
                 \<and> alt_margin_left \<le> vy + (alt_margin_left - loY)
                 \<and> vy + (alt_margin_left - loY) < w
                 \<and> alt_margin_top \<le> vx + (alt_margin_top - loX)
                 \<and> vx + (alt_margin_top - loX) < h))"
proof
  from layout_extent [of pos "update_at p (map_attrs source_defaults) (rootNodeD3 v)"]
  obtain loX hiX loY hiY where
    "node_bounds (descendants (treeLayout pos (update_at p (map_attrs source_defaults)
                                                       (rootNodeD3 v))))
       = \<lparr>minX_node = Num loX, maxX_node = Num hiX, minY_node = Num loY, maxY_node = Num hiY\<rparr>"
    by blast
  then show "g_transform (updateTree pos cw p v) = g_transform v"
    by (rule updateTree_view(3))
next
  let ?layout = "treeLayout pos (update_at p (map_attrs alt_source_defaults) (rootNodeD3 v))"
  let ?nodes = "descendants (rootNodeD3 (alt_updateTree pos cw p v))"
  from layout_extent [of pos "update_at p (map_attrs alt_source_defaults) (rootNodeD3 v)"]
  obtain loX hiX loY hiY where
    nb: "node_bounds (descendants ?layout)
       = \<lparr>minX_node = Num loX, maxX_node = Num hiX, minY_node = Num loY, maxY_node = Num hiY\<rparr>"
    and ex0: "extent (descendants ?layout) loX hiX loY hiY"
    by blast
  have ex: "extent ?nodes loX hiX loY hiY"
    using ex0 by (simp only: extent_positions [OF alt_updateTree_positions])
  note vw = alt_updateTree_view [OF nb, of cw]
  let ?w = "max (alt_calculatedInitialWidth cw)
              (hiY - loY + alt_margin_left + alt_margin_right + 250)"
  let ?h = "max alt_initialHeight (hiX - loX + alt_margin_top + alt_margin_bottom + 60)"
  have inside: "\<exists>vx vy. position d = (Some vx, Some vy)
                 \<and> alt_margin_left \<le> vy + (alt_margin_left - loY)
                 \<and> vy + (alt_margin_left - loY) < ?w
                 \<and> alt_margin_top \<le> vx + (alt_margin_top - loX)
                 \<and> vx + (alt_margin_top - loX) < ?h"
    if "d \<in> set ?nodes" for d
  proof -
    from ex that obtain vx vy where
      "node_x (attrs d) = Some vx" "node_y (attrs d) = Some vy"
      "loX \<le> vx" "vx \<le> hiX" "loY \<le> vy" "vy \<le> hiY"
      unfolding extent_def by blast
    then show ?thesis
      by (intro exI [of _ vx] exI [of _ vy])
        (simp add: position_def alt_margin_right_def alt_margin_bottom_def max_def)
  qed
  show "\<exists>loX hiX loY hiY w h.
         extent ?nodes loX hiX loY hiY
         \<and> g_transform (alt_updateTree pos cw p v)
             = Translate (Num (alt_margin_left - loY)) (Num (alt_margin_top - loX))
         \<and> svg_width (alt_updateTree pos cw p v) = Num w
         \<and> svg_height (alt_updateTree pos cw p v) = Num h
         \<and> (\<forall>d \<in> set ?nodes.
               \<exists>vx vy. position d = (Some vx, Some vy)
                 \<and> alt_margin_left \<le> vy + (alt_margin_left - loY)
                 \<and> vy + (alt_margin_left - loY) < w
                 \<and> alt_margin_top \<le> vx + (alt_margin_top - loX)
                 \<and> vx + (alt_margin_top - loX) < h)"
    using ex vw inside by blast
qed

theorem redraw_transform_witness:
  "g_transform (updateTree sample_layout 1000 [] sample_view) = Translate (Num 180) (Num 40)
   \<and> g_transform (alt_updateTree sample_layout 1000 [] sample_view)
       = Translate (Num 200) (Num 70)
   \<and> (\<exists>hiX hiY. extent (descendants (rootNodeD3 (alt_updateTree sample_layout 1000 []
                                                      sample_view))) (- 20) hiX 0 hiY)"
proof -
  note th = redraw_transform [of sample_layout 1000 "[]" sample_view]
  have a: "g_transform (updateTree sample_layout 1000 [] sample_view)
             = Translate (Num 180) (Num 40)"
    using th by (simp add: sample_view_def)
  have b: "g_transform (alt_updateTree sample_layout 1000 [] sample_view)
       = Translate (Num 200) (Num 70)"
    by code_simp
  from th obtain loX hiX loY hiY where
    e: "extent (descendants (rootNodeD3 (alt_updateTree sample_layout 1000 [] sample_view)))
          loX hiX loY hiY"
    and g: "g_transform (alt_updateTree sample_layout 1000 [] sample_view)
             = Translate (Num (alt_margin_left - loY)) (Num (alt_margin_top - loX))"
    by blast
  from g have "loX = - 20" "loY = 0"
    unfolding b by (simp_all add: alt_margin_left_def alt_margin_top_def)
  with e have c: "\<exists>hiX hiY. extent (descendants (rootNodeD3 (alt_updateTree sample_layout 1000 []
                                                      sample_view))) (- 20) hiX 0 hiY"
    by blast
  show ?thesis
    by (rule conjI [OF a conjI [OF b c]])
qed

text \<open>
  C5 as stated fails for \<open>tree_logic.js\<close>: after the first redraw of the sample family the
  smallest sibling-axis coordinate is - 20, and the translation is still the margins.
\<close>

theorem redraw_transform_counterexample:
  "g_transform (page_view (load sample_layout 1000 (Resolved (Some four_generations))))
     \<noteq> Translate
         (js_sub (Num margin_left)
            (minY_node (node_bounds (descendants (rootNodeD3 (page_view
               (load sample_layout 1000 (Resolved (Some four_generations)))))))))
         (js_sub (Num margin_top)
            (minX_node (node_bounds (descendants (rootNodeD3 (page_view
               (load sample_layout 1000 (Resolved (Some four_generations)))))))))"
  by code_simp

section \<open>Stable identifiers\<close>

lemma keeps_ids_refl: "keeps_ids t t"
  by (simp add: keeps_ids_def)

lemma keeps_ids_trans: "keeps_ids t u \<Longrightarrow> keeps_ids u w \<Longrightarrow> keeps_ids t w"
  by (simp add: keeps_ids_def)

lemma keeps_ids_same: "(\<And>q. id_at q t' = id_at q t) \<Longrightarrow> keeps_ids t t'"
  by (simp add: keeps_ids_def)

lemma kids_update_at:
  "kids (update_at (j # p) f t)
     = (if j < length (kids t) then (kids t)[j := update_at p f (kids t ! j)] else kids t)"
  by (cases t) (auto simp: kids_def split: option.splits)

lemma attrs_update_at: "attrs (update_at (j # p) f t) = attrs t"
  by (cases t) (auto split: option.splits)

lemma attrs_at_update_at:
  assumes "\<And>d. kids (f d) = kids d"
  shows "map_option attrs (node_at q (update_at p f t))
           = (if q = p then map_option (\<lambda>d. attrs (f d)) (node_at p t)
              else map_option attrs (node_at q t))"
proof (induction p arbitrary: q t)
  case Nil
  show ?case
    by (cases q) (simp_all add: assms)
next
  case (Cons j p)
  show ?case
  proof (cases q)
    case Nil
    then show ?thesis by (simp add: attrs_update_at)
  next
    case (Cons i q')
    show ?thesis
    proof (cases "i < length (kids t)")
      case False
      then show ?thesis
        unfolding Cons by (simp add: kids_update_at)
    next
      case True
      show ?thesis
      proof (cases "i = j")
        case True
        then show ?thesis
          using \<open>i < length (kids t)\<close> Cons.IH [of q' "kids t ! j"]
          unfolding Cons by (simp add: kids_update_at)
      next
        case False
        then show ?thesis
          using \<open>i < length (kids t)\<close> unfolding Cons by (simp add: kids_update_at)
      qed
    qed
  qed
qed

lemma id_at_attrs: "id_at q u = map_option node_id (map_option attrs (node_at q u))"
  by (simp add: id_at_def option.map_comp comp_def)

lemma id_at_update_at:
  assumes "\<And>d. kids (f d) = kids d" "\<And>d. node_id (attrs (f d)) = node_id (attrs d)"
  shows "id_at q (update_at p f t) = id_at q t"
proof (cases "q = p")
  case False
  then show ?thesis
    unfolding id_at_attrs by (simp only: attrs_at_update_at [of f, OF assms(1)] if_False)
next
  case True
  have "map_option node_id (map_option (\<lambda>d. attrs (f d)) (node_at p t))
          = map_option node_id (map_option attrs (node_at p t))"
    by (simp add: option.map_comp comp_def assms(2))
  then show ?thesis
    unfolding id_at_attrs True
    by (simp only: attrs_at_update_at [of f, OF assms(1)] simp_thms if_True)
qed

lemma kids_map_attrs: "kids (map_attrs g d) = kids d"
  by (cases d) (simp add: kids_def split: option.splits)

lemma kids_set_attrs: "kids (set_attrs a d) = kids d"
  by (cases d) (simp add: kids_def split: option.splits)

lemma attrs_map_attrs: "attrs (map_attrs g d) = g (attrs d)"
  by (cases d) simp

lemma attrs_set_attrs: "attrs (set_attrs a d) = a"
  by (cases d) simp

lemma id_at_toggle: "id_at q (update_at p toggleChildren t) = id_at q t"
  by (rule id_at_update_at) (simp_all add: kids_toggle attrs_toggle)

lemma id_at_map_attrs:
  assumes "\<And>a. node_id (g a) = node_id a"
  shows "id_at q (update_at p (map_attrs g) t) = id_at q t"
  by (rule id_at_update_at) (simp_all add: kids_map_attrs attrs_map_attrs assms)

lemma node_id_source_defaults: "node_id (source_defaults a) = node_id a"
  by (simp add: source_defaults_def Let_def)

lemma node_id_alt_source_defaults: "node_id (alt_source_defaults a) = node_id a"
  by (simp add: alt_source_defaults_def Let_def)

lemma kids_stash:
  "kids (stash d) = (case children d of None \<Rightarrow> kids d | Some ds \<Rightarrow> map stash ds)"
  by (cases d) (simp add: kids_def split: option.splits)

lemma id_at_stash: "id_at q (stash t) = id_at q t"
proof (induction q arbitrary: t)
  case Nil
  show ?case by (cases t) (simp add: id_at_def)
next
  case (Cons i q)
  show ?case
  proof (cases "children t")
    case None
    then show ?thesis by (simp add: id_at_def kids_stash)
  next
    case (Some ds)
    then have k: "kids t = ds" by (simp add: kids_def)
    show ?thesis
      using Cons.IH [of "ds ! i"] Some k by (simp add: id_at_def kids_stash)
  qed
qed

lemma kids_place:
  "kids (place f p d)
     = (case children d of
          None \<Rightarrow> kids d
        | Some ds \<Rightarrow> map (\<lambda>(i, c). place f (p @ [i]) c) (enumerate 0 ds))"
  by (cases d) (simp add: kids_def split: option.splits)

lemma id_at_place: "id_at q (place f p t) = id_at q t"
proof (induction q arbitrary: p t)
  case Nil
  show ?case by (cases t) (simp add: id_at_def)
next
  case (Cons i q)
  show ?case
  proof (cases "children t")
    case None
    then show ?thesis by (simp add: id_at_def kids_place)
  next
    case (Some ds)
    then have k: "kids t = ds" by (simp add: kids_def)
    show ?thesis
      using Cons.IH [of "p @ [i]" "ds ! i"] Some k
      by (simp add: id_at_def kids_place nth_enumerate_eq)
  qed
qed

lemma key_keeps: "truthy (node_id a) \<Longrightarrow> key a n = (a, n)"
  by (simp add: key_def)

lemma key_truthy: "truthy (node_id (fst (key a n)))"
  by (simp add: key_def truthy_def)

lemma key_counter: "n \<le> snd (key a n)"
  by (simp add: key_def)

lemma keeps_ids_key_at: "keeps_ids (fst s) (fst (key_at p s))"
proof (cases "node_at p (fst s)")
  case None
  then show ?thesis by (simp add: key_at_none keeps_ids_refl)
next
  case (Some d)
  let ?a = "fst (key (attrs d) (snd s))"
  have at: "map_option attrs (node_at q (update_at p (set_attrs ?a) (fst s)))
           = (if q = p then Some ?a else map_option attrs (node_at q (fst s)))" for q
    using attrs_at_update_at [of "set_attrs ?a" q p "fst s"] Some
    by (simp add: kids_set_attrs attrs_set_attrs)
  have "id_at q (update_at p (set_attrs ?a) (fst s)) = Some i"
    if "id_at q (fst s) = Some i" "truthy i" for q i
  proof (cases "q = p")
    case False
    then show ?thesis using that(1) unfolding id_at_attrs by (simp only: at if_False)
  next
    case True
    then have i: "node_id (attrs d) = i" using that(1) Some by (simp add: id_at_def)
    then have "?a = attrs d" using that(2) by (simp add: key_keeps)
    then have "map_option node_id (Some ?a) = Some i" using i by simp
    then show ?thesis unfolding id_at_attrs True by (simp only: at simp_thms if_True)
  qed
  then show ?thesis
    by (simp add: keeps_ids_def key_at_some [OF Some])
qed

lemma keeps_ids_fold_key_at: "keeps_ids (fst s) (fst (fold key_at ps s))"
proof (induction ps arbitrary: s)
  case Nil
  show ?case by (simp add: keeps_ids_refl)
next
  case (Cons p ps)
  show ?case
    using keeps_ids_trans [OF keeps_ids_key_at [of s p] Cons.IH [of "key_at p s"]] by simp
qed

lemma keeps_ids_join_keys: "keeps_ids (fst s) (fst (join_keys s))"
  unfolding join_keys_def by (rule keeps_ids_fold_key_at)

lemma counter_key_at: "snd s \<le> snd (key_at p s)"
  by (cases "node_at p (fst s)") (simp_all add: key_at_none key_at_some key_counter)

lemma counter_fold_key_at: "snd s \<le> snd (fold key_at ps s)"
proof (induction ps arbitrary: s)
  case Nil
  show ?case by simp
next
  case (Cons p ps)
  show ?case
    using order_trans [OF counter_key_at [of s p] Cons.IH [of "key_at p s"]] by simp
qed

lemma counter_join_keys: "snd s \<le> snd (join_keys s)"
  unfolding join_keys_def by (rule counter_fold_key_at)

lemma keeps_ids_updateTree: "keeps_ids (rootNodeD3 v) (rootNodeD3 (updateTree pos cw p v))"
proof -
  let ?anchored = "update_at p (map_attrs source_defaults) (rootNodeD3 v)"
  have a: "keeps_ids (rootNodeD3 v) (treeLayout pos ?anchored)"
    by (rule keeps_ids_same)
      (simp add: treeLayout_def id_at_place id_at_map_attrs node_id_source_defaults)
  have b: "keeps_ids (treeLayout pos ?anchored)
             (fst (join_keys (treeLayout pos ?anchored, nodeIndex v)))"
    using keeps_ids_join_keys [of "(treeLayout pos ?anchored, nodeIndex v)"] by simp
  have c: "keeps_ids (fst (join_keys (treeLayout pos ?anchored, nodeIndex v)))
             (rootNodeD3 (updateTree pos cw p v))"
    unfolding updateTree_tree by (rule keeps_ids_same) (rule id_at_stash)
  from a b c show ?thesis
    by (blast intro: keeps_ids_trans)
qed

lemma keeps_ids_alt_updateTree:
  "keeps_ids (rootNodeD3 v) (rootNodeD3 (alt_updateTree pos cw p v))"
proof -
  let ?anchored = "update_at p (map_attrs alt_source_defaults) (rootNodeD3 v)"
  have a: "keeps_ids (rootNodeD3 v) (treeLayout pos ?anchored)"
    by (rule keeps_ids_same)
      (simp add: treeLayout_def id_at_place id_at_map_attrs node_id_alt_source_defaults)
  have b: "keeps_ids (treeLayout pos ?anchored)
             (fst (join_keys (treeLayout pos ?anchored, nodeIndex v)))"
    using keeps_ids_join_keys [of "(treeLayout pos ?anchored, nodeIndex v)"] by simp
  have c: "keeps_ids (fst (join_keys (treeLayout pos ?anchored, nodeIndex v)))
             (rootNodeD3 (alt_updateTree pos cw p v))"
    unfolding alt_updateTree_tree by (rule keeps_ids_same) (rule id_at_stash)
  from a b c show ?thesis
    by (blast intro: keeps_ids_trans)
qed

lemma counter_updateTree: "nodeIndex v \<le> nodeIndex (updateTree pos cw p v)"
  using counter_join_keys
    [of "(treeLayout pos (update_at p (map_attrs source_defaults) (rootNodeD3 v)), nodeIndex v)"]
  by (simp add: updateTree_def Let_def)

lemma handle_tree_page:
  "\<exists>v' pn'. handle pos cw ev (TreePage v pn) = TreePage v' pn'
      \<and> keeps_ids (rootNodeD3 v) (rootNodeD3 v') \<and> nodeIndex v \<le> nodeIndex v'"
proof (cases ev)
  case (Zoom zx zy zk)
  then show ?thesis by (simp add: handle_def keeps_ids_refl)
next
  case (Click p)
  show ?thesis
  proof (cases "node_at p (rootNodeD3 v)")
    case None
    then show ?thesis using Click by (simp add: handle_def keeps_ids_refl)
  next
    case (Some d)
    let ?v1 = "v\<lparr>rootNodeD3 := update_at p toggleChildren (rootNodeD3 v)\<rparr>"
    have h: "handle pos cw ev (TreePage v pn)
           = TreePage (updateTree pos cw p ?v1) (Some (displayDetails (data (attrs d))))"
      using Click Some by (simp add: handle_def)
    have "keeps_ids (rootNodeD3 v) (rootNodeD3 ?v1)"
      by (rule keeps_ids_same) (simp add: id_at_toggle)
    then have k: "keeps_ids (rootNodeD3 v) (rootNodeD3 (updateTree pos cw p ?v1))"
      using keeps_ids_updateTree [of ?v1 pos cw p] by (blast intro: keeps_ids_trans)
    have n: "nodeIndex v \<le> nodeIndex (updateTree pos cw p ?v1)"
      using counter_updateTree [of ?v1 pos cw p] by simp
    show ?thesis
      unfolding h using k n by blast
  qed
qed

lemma fold_handle_tree_page:
  "\<exists>v' pn'. fold (handle pos cw) evs (TreePage v pn) = TreePage v' pn'
      \<and> keeps_ids (rootNodeD3 v) (rootNodeD3 v') \<and> nodeIndex v \<le> nodeIndex v'"
proof (induction evs arbitrary: v pn)
  case Nil
  show ?case by (simp add: keeps_ids_refl)
next
  case (Cons ev evs)
  from handle_tree_page [of pos cw ev v pn] obtain v1 pn1 where
    h: "handle pos cw ev (TreePage v pn) = TreePage v1 pn1"
    and k: "keeps_ids (rootNodeD3 v) (rootNodeD3 v1)" and n: "nodeIndex v \<le> nodeIndex v1"
    by blast
  from Cons.IH [of v1 pn1] obtain v' pn' where
    f: "fold (handle pos cw) evs (TreePage v1 pn1) = TreePage v' pn'"
    and k': "keeps_ids (rootNodeD3 v1) (rootNodeD3 v')" and n': "nodeIndex v1 \<le> nodeIndex v'"
    by blast
  have "fold (handle pos cw) (ev # evs) (TreePage v pn) = TreePage v' pn'"
    using h f by simp
  moreover have "keeps_ids (rootNodeD3 v) (rootNodeD3 v')"
    using k k' by (rule keeps_ids_trans)
  moreover have "nodeIndex v \<le> nodeIndex v'" using n n' by simp
  ultimately show ?case by blast
qed

text \<open>
  C4. The key function leaves an assigned identifier alone; a node without one gets the
  record's identifier when the record has one, and otherwise the next value of the counter,
  which never decreases. An identifier, once assigned, stays at its node through any sequence
  of clicks (toggle and redraw) and zooms, through a single toggle and through a single
  redraw of either script.
\<close>

theorem node_id_assigned_once:
  "(truthy (node_id a) \<longrightarrow> key a n = (a, n))
   \<and> (\<not> truthy (node_id a) \<and> truthy (data_id (data a)) \<longrightarrow>
        key a n = (a\<lparr>node_id := data_id (data a)\<rparr>, n))
   \<and> (\<not> truthy (node_id a) \<and> \<not> truthy (data_id (data a)) \<longrightarrow>
        key a n = (a\<lparr>node_id := Some (''node-'' @ digits (n + 1))\<rparr>, n + 1))
   \<and> truthy (node_id (fst (key a n)))
   \<and> n \<le> snd (key a n)
   \<and> (id_at q (rootNodeD3 v) = Some i \<and> truthy i \<longrightarrow>
        id_at q (rootNodeD3 (page_view (fold (handle pos cw) evs (TreePage v pn)))) = Some i
        \<and> id_at q (rootNodeD3 (updateTree pos cw p v)) = Some i
        \<and> id_at q (rootNodeD3 (alt_updateTree pos cw p v)) = Some i
        \<and> id_at q (update_at p toggleChildren (rootNodeD3 v)) = Some i)
   \<and> nodeIndex v \<le> nodeIndex (page_view (fold (handle pos cw) evs (TreePage v pn)))"
proof -
  from fold_handle_tree_page [of pos cw evs v pn] obtain v' pn' where
    f: "fold (handle pos cw) evs (TreePage v pn) = TreePage v' pn'"
    and k: "keeps_ids (rootNodeD3 v) (rootNodeD3 v')" and c: "nodeIndex v \<le> nodeIndex v'"
    by blast
  have k1: "truthy (node_id a) \<longrightarrow> key a n = (a, n)"
    by (simp add: key_keeps)
  have k2: "\<not> truthy (node_id a) \<and> truthy (data_id (data a)) \<longrightarrow>
        key a n = (a\<lparr>node_id := data_id (data a)\<rparr>, n)"
    by (simp add: key_def)
  have k3: "\<not> truthy (node_id a) \<and> \<not> truthy (data_id (data a)) \<longrightarrow>
        key a n = (a\<lparr>node_id := Some (''node-'' @ digits (n + 1))\<rparr>, n + 1)"
    by (simp add: key_def)
  have k4: "truthy (node_id (fst (key a n)))"
    by (rule key_truthy)
  have k5: "n \<le> snd (key a n)"
    by (rule key_counter)
  have st: "id_at q (rootNodeD3 v) = Some i \<and> truthy i \<longrightarrow>
        id_at q (rootNodeD3 (page_view (fold (handle pos cw) evs (TreePage v pn)))) = Some i
        \<and> id_at q (rootNodeD3 (updateTree pos cw p v)) = Some i
        \<and> id_at q (rootNodeD3 (alt_updateTree pos cw p v)) = Some i
        \<and> id_at q (update_at p toggleChildren (rootNodeD3 v)) = Some i"
    using k keeps_ids_updateTree [of v pos cw p] keeps_ids_alt_updateTree [of v pos cw p]
    unfolding f keeps_ids_def by (simp add: id_at_toggle)
  have ct: "nodeIndex v \<le> nodeIndex (page_view (fold (handle pos cw) evs (TreePage v pn)))"
    using c unfolding f by simp
  show ?thesis
    by (rule conjI [OF k1 conjI [OF k2 conjI [OF k3 conjI [OF k4 conjI [OF k5 conjI [OF st ct]]]]]])
qed

theorem node_id_assigned_once_witness:
  "id_at [0] (rootNodeD3 loaded_sample) = Some (Some ''node-2'')
   \<and> id_at [0] (rootNodeD3 (page_view (fold (handle sample_layout 1000)
                   [Click [0, 0], Click [0], Zoom 10 20 2, Click [0]]
                   (TreePage loaded_sample None)))) = Some (Some ''node-2'')
   \<and> id_at [0, 0] (rootNodeD3 loaded_sample) = Some (Some ''gp'')
   \<and> id_at [0, 0] (rootNodeD3 (page_view (fold (handle sample_layout 1000)
                   [Click [0, 0], Click [0], Zoom 10 20 2, Click [0]]
                   (TreePage loaded_sample None)))) = Some (Some ''gp'')
   \<and> id_at [0, 0, 0] (rootNodeD3 loaded_sample) = Some None
   \<and> id_at [0, 0, 0] (rootNodeD3 (page_view (fold (handle sample_layout 1000)
                   [Click [0, 0], Click [0], Zoom 10 20 2, Click [0]]
                   (TreePage loaded_sample None)))) = Some (Some ''node-4'')"
proof -
  let ?evs = "[Click [0, 0], Click [0], Zoom 10 20 2, Click [0]]"
  have a: "id_at [0] (rootNodeD3 loaded_sample) = Some (Some ''node-2'')"
    by code_simp
  have t: "truthy (Some ''node-2'')" "truthy (Some ''gp'')"
    by (simp_all add: truthy_def)
  have b: "id_at [0] (rootNodeD3 (page_view (fold (handle sample_layout 1000) ?evs
                   (TreePage loaded_sample None)))) = Some (Some ''node-2'')"
    using node_id_assigned_once [where q = "[0]" and v = loaded_sample and i = "Some ''node-2''"
        and pos = sample_layout and cw = 1000 and evs = ?evs and pn = None] a t
    by blast
  have c: "id_at [0, 0] (rootNodeD3 loaded_sample) = Some (Some ''gp'')"
    by code_simp
  have d: "id_at [0, 0] (rootNodeD3 (page_view (fold (handle sample_layout 1000) ?evs
                   (TreePage loaded_sample None)))) = Some (Some ''gp'')"
    using node_id_assigned_once [where q = "[0, 0]" and v = loaded_sample and i = "Some ''gp''"
        and pos = sample_layout and cw = 1000 and evs = ?evs and pn = None] c t
    by blast
  have e: "id_at [0, 0, 0] (rootNodeD3 loaded_sample) = Some None"
    by code_simp
  have f: "id_at [0, 0, 0] (rootNodeD3 (page_view (fold (handle sample_layout 1000) ?evs
                   (TreePage loaded_sample None)))) = Some (Some ''node-4'')"
    by code_simp
  show ?thesis
    by (rule conjI [OF a conjI [OF b conjI [OF c conjI [OF d conjI [OF e f]]]]])
qed

section \<open>Load failures and absent fields\<close>

text \<open>
  C9. A rejected fetch and a parsed document whose root has neither a name nor an
  identifier end the same way: the container shows one error paragraph in place of the
  drawing, and no later event changes it. A root with a name or an identifier always gives
  the drawing, whatever else is absent: a record without children is a leaf, a node without
  a name is labelled \<open>N/A\<close>, without origin data its class is \<open>unknown\<close>, and the detail
  panel of a record with nothing but children shows \<open>N/A\<close> and empty text.
\<close>

theorem load_failures:
  "(\<not> truthy (name familyData) \<and> \<not> truthy (data_id familyData) \<longrightarrow>
      load pos cw (Resolved (Some familyData)) = ErrorPage ''Failed to load family tree data.'')
   \<and> load pos cw (Resolved None) = ErrorPage ''Failed to load family tree data.''
   \<and> load pos cw (Rejected msg) = ErrorPage (''Error loading data: '' @ msg @ ''.'')
   \<and> fold (handle pos cw) evs (ErrorPage msg) = ErrorPage msg
   \<and> (truthy (name familyData) \<or> truthy (data_id familyData) \<longrightarrow>
        \<not> is_error (load pos cw (Resolved (Some familyData)))
        \<and> \<not> is_error (fold (handle pos cw) evs (load pos cw (Resolved (Some familyData)))))
   \<and> hierarchy (Person i nm None c m ds)
       = Node \<lparr>data = Person i nm None c m ds, node_id = None, node_x = None, node_y = None,
               node_x0 = None, node_y0 = None\<rparr> None None
   \<and> node_label (hierarchy (Person i None cs c m ds)) = ''N/A''
   \<and> node_class cmp (hierarchy (Person i nm cs None None ds)) = ''node country-unknown''
   \<and> displayDetails (Person i None cs c m None)
       = \<lparr>detailName = ''N/A'', detailOrigin = NA, detailYearInfo = ''N/A'', detailRawText = []\<rparr>
   \<and> displayDetails (Person i (Some (x # xs)) cs c m None)
       = \<lparr>detailName = x # xs, detailOrigin = NA, detailYearInfo = ''N/A'',
          detailRawText = x # xs\<rparr>"
proof (intro conjI impI)
  assume "\<not> truthy (name familyData) \<and> \<not> truthy (data_id familyData)"
  then show "load pos cw (Resolved (Some familyData))
               = ErrorPage ''Failed to load family tree data.''"
    by (simp add: load_def displayError_def)
next
  show "load pos cw (Resolved None) = ErrorPage ''Failed to load family tree data.''"
    by (simp add: load_def displayError_def)
next
  show "load pos cw (Rejected msg) = ErrorPage (''Error loading data: '' @ msg @ ''.'')"
    by (simp add: load_def displayError_def)
next
  show "fold (handle pos cw) evs (ErrorPage msg) = ErrorPage msg"
    by (rule fold_handle_error)
next
  assume a: "truthy (name familyData) \<or> truthy (data_id familyData)"
  then obtain v where l: "load pos cw (Resolved (Some familyData)) = TreePage v None"
    by (auto simp: load_def)
  then show "\<not> is_error (load pos cw (Resolved (Some familyData)))"
    by simp
  from fold_handle_tree_page [of pos cw evs v None]
  show "\<not> is_error (fold (handle pos cw) evs (load pos cw (Resolved (Some familyData))))"
    unfolding l by auto
next
  show "hierarchy (Person i nm None c m ds)
       = Node \<lparr>data = Person i nm None c m ds, node_id = None, node_x = None, node_y = None,
               node_x0 = None, node_y0 = None\<rparr> None None"
    by simp
next
  show "node_label (hierarchy (Person i None cs c m ds)) = ''N/A''"
    by (simp add: node_label_def or_na_def)
next
  show "node_class cmp (hierarchy (Person i nm cs None None ds)) = ''node country-unknown''"
    by (simp add: node_class_def getDominantOrigin_def or_unknown_def sanitizeForCss_def Let_def)
      code_simp
next
  show "displayDetails (Person i None cs c m None)
       = \<lparr>detailName = ''N/A'', detailOrigin = NA, detailYearInfo = ''N/A'', detailRawText = []\<rparr>"
    by (simp add: displayDetails_def or_na_def truthy_def)
next
  show "displayDetails (Person i (Some (x # xs)) cs c m None)
       = \<lparr>detailName = x # xs, detailOrigin = NA, detailYearInfo = ''N/A'',
          detailRawText = x # xs\<rparr>"
    by (simp add: displayDetails_def or_na_def truthy_def)
qed

theorem load_failures_witness:
  "load sample_layout 1000 (Resolved (Some (Person None None (Some [four_generations]) None None None)))
     = ErrorPage ''Failed to load family tree data.''
   \<and> load sample_layout 1000 (Rejected ''404'') = ErrorPage ''Error loading data: 404.''
   \<and> \<not> is_error (load sample_layout 1000
         (Resolved (Some (Person (Some ''p1'') None None None None None))))
   \<and> \<not> is_error (fold (handle sample_layout 1000) [Click []]
         (load sample_layout 1000 (Resolved (Some (Person (Some ''p1'') None None None None None)))))"
proof -
  note th1 = load_failures [where familyData = "Person None None (Some [four_generations]) None None None"
      and pos = sample_layout and cw = 1000 and msg = "''404''"]
  have a: "load sample_layout 1000
             (Resolved (Some (Person None None (Some [four_generations]) None None None)))
           = ErrorPage ''Failed to load family tree data.''"
    using th1 by (simp add: truthy_def)
  have b: "load sample_layout 1000 (Rejected ''404'') = ErrorPage ''Error loading data: 404.''"
    using th1 by simp
  note th2 = load_failures [where familyData = "Person (Some ''p1'') None None None None None"
      and pos = sample_layout and cw = 1000 and evs = "[Click []]"]
  have h: "truthy (name (Person (Some ''p1'') None None None None None))
           \<or> truthy (data_id (Person (Some ''p1'') None None None None None))"
    by (simp add: truthy_def)
  have c: "\<not> is_error (load sample_layout 1000
         (Resolved (Some (Person (Some ''p1'') None None None None None))))"
    using th2 h by blast
  have d: "\<not> is_error (fold (handle sample_layout 1000) [Click []]
         (load sample_layout 1000 (Resolved (Some (Person (Some ''p1'') None None None None None)))))"
    using th2 h by blast
  show ?thesis
    by (rule conjI [OF a conjI [OF b conjI [OF c d]]])
qed

end
